theory Spec2Isabelle
  imports
    Complex_Main
    "HOL-Library.AList"
    "HOL-Library.Multiset"
    "HOL-Library.Sublist"
    "HOL-Library.Word"
begin

section \<open>Data model of \<^verbatim>\<open>image_compressor.py\<close>\<close>

text \<open>
  A pixel sample is an 8-bit intensity (\<^verbatim>\<open>np.uint8\<close>); it is kept as a natural number and
  the range \<open>[0,255]\<close> is stated where it matters. Counts and lengths are Python integers
  that never go negative, so they are natural numbers as well. Python strings of
  \<^verbatim>\<open>'0'\<close>/\<^verbatim>\<open>'1'\<close> characters are HOL strings. A byte of a file is an \<open>8 word\<close>.
\<close>

type_synonym Symbol = nat

type_synonym byte = "8 word"

text \<open>The Python exceptions that the modelled code can raise.\<close>

datatype error = IndexError | KeyError | ValueError | ZeroDivisionError | OverflowError
  | AttributeError

text \<open>
  \<^verbatim>\<open>class HuffmanNode\<close> has the fields \<^verbatim>\<open>value\<close>, \<^verbatim>\<open>freq\<close>, \<^verbatim>\<open>left\<close>, \<^verbatim>\<open>right\<close>. The code builds
  its objects in two shapes only: \<^verbatim>\<open>HuffmanNode(value, freq)\<close> with both children \<^verbatim>\<open>None\<close>
  (line 37), and \<^verbatim>\<open>HuffmanNode(freq=...)\<close> with \<^verbatim>\<open>value = None\<close> and both children assigned
  (lines 44-46). \<open>Leaf\<close> is the first shape, \<open>Internal\<close> the second; the test
  \<^verbatim>\<open>node.value is not None\<close> of line 56 is the test for \<open>Leaf\<close>.
\<close>

datatype HuffmanNode =
    Leaf (leaf_value: Symbol) (leaf_freq: nat)
  | Internal (node_freq: nat) (left: HuffmanNode) (right: HuffmanNode)

fun freq :: "HuffmanNode \<Rightarrow> nat" where
  "freq (Leaf v f) = f"
| "freq (Internal f l r) = f"

text \<open>\<^verbatim>\<open>HuffmanNode.__lt__\<close>: nodes are compared by frequency alone.\<close>

definition lt :: "HuffmanNode \<Rightarrow> HuffmanNode \<Rightarrow> bool" where
  "lt self other = (freq self < freq other)"

text \<open>
  The instance state of \<^verbatim>\<open>class ImageCompressor\<close>. A Python \<^verbatim>\<open>dict\<close> keeps its keys in
  insertion order and an assignment to a present key keeps the key's position: this is an
  association list under \<^const>\<open>AList.update\<close>.
\<close>

type_synonym ('k, 'v) dict = "('k \<times> 'v) list"

record ImageCompressor =
  huffman_codes :: "(Symbol, string) dict"
  huffman_tree :: "HuffmanNode option"

text \<open>\<^verbatim>\<open>ImageCompressor.__init__\<close>\<close>

definition init :: ImageCompressor where
  "init = \<lparr>huffman_codes = [], huffman_tree = None\<rparr>"

text \<open>A dict comprehension \<^verbatim>\<open>{f(k, v) for k, v in d.items()}\<close> inserts the pairs in order.\<close>

definition dict_of_items :: "('k \<times> 'v) list \<Rightarrow> ('k, 'v) dict" where
  "dict_of_items kvs = foldl (\<lambda>d (k, v). AList.update k v d) [] kvs"

section \<open>The priority queue: \<^verbatim>\<open>heapq\<close> on a list of nodes\<close>

text \<open>
  \<^verbatim>\<open>build_huffman_tree\<close> keeps its nodes in a Python list under \<^verbatim>\<open>heapq.heappush\<close> and
  \<^verbatim>\<open>heapq.heappop\<close> of the standard library (\<^verbatim>\<open>Lib/heapq.py\<close> of CPython, whose C version
  computes the same lists). The only comparison is \<^verbatim>\<open>__lt__\<close>, so nodes of equal frequency
  are ordered by their positions in the list. Every index read below is within the list on
  the calls that \<^verbatim>\<open>heappush\<close> and \<^verbatim>\<open>heappop\<close> make.

  \<^verbatim>\<open>heapq._siftdown(heap, startpos, pos)\<close>: the loop moves the hole at \<open>pos\<close> towards the root
  while the new item is smaller than the hole's parent. It is called with
  \<open>pos < length heap\<close> only.
\<close>

function siftdown_loop :: "HuffmanNode list \<Rightarrow> HuffmanNode \<Rightarrow> nat \<Rightarrow> nat \<Rightarrow> HuffmanNode list" where
  "siftdown_loop heap newitem startpos pos =
     (if pos > startpos then
        (let parentpos = (pos - 1) div 2;
             parent = heap ! parentpos
         in if lt newitem parent
            then siftdown_loop (heap[pos := parent]) newitem startpos parentpos
            else heap[pos := newitem])
      else heap[pos := newitem])"
  by pat_completeness auto
termination
  by (relation "measure (\<lambda>(heap, newitem, startpos, pos). pos)") auto

declare siftdown_loop.simps [simp del]

definition siftdown :: "HuffmanNode list \<Rightarrow> nat \<Rightarrow> nat \<Rightarrow> HuffmanNode list" where
  "siftdown heap startpos pos = siftdown_loop heap (heap ! pos) startpos pos"

text \<open>
  \<^verbatim>\<open>heapq._siftup(heap, pos)\<close>: the loop bubbles the smaller child up until the hole is at a
  leaf; the right child is taken when the left one is not smaller than it. It returns the
  list and the final position of the hole.
\<close>

function siftup_loop :: "HuffmanNode list \<Rightarrow> nat \<Rightarrow> nat \<Rightarrow> nat \<Rightarrow> HuffmanNode list \<times> nat" where
  "siftup_loop heap endpos pos childpos =
     (if childpos < endpos then
        (let rightpos = childpos + 1;
             childpos' = (if rightpos < endpos \<and> \<not> lt (heap ! childpos) (heap ! rightpos)
                          then rightpos else childpos)
         in siftup_loop (heap[pos := heap ! childpos']) endpos childpos' (2 * childpos' + 1))
      else (heap, pos))"
  by pat_completeness auto
termination
  by (relation "measure (\<lambda>(heap, endpos, pos, childpos). endpos - childpos)") auto

declare siftup_loop.simps [simp del]

definition siftup :: "HuffmanNode list \<Rightarrow> nat \<Rightarrow> HuffmanNode list" where
  "siftup heap pos =
     (let endpos = length heap;
          startpos = pos;
          newitem = heap ! pos;
          (heap', pos') = siftup_loop heap endpos pos (2 * pos + 1)
      in siftdown (heap'[pos' := newitem]) startpos pos')"

text \<open>\<^verbatim>\<open>heapq.heappush(heap, item)\<close>: append, then sift the last position down to the root.\<close>

definition heappush :: "HuffmanNode list \<Rightarrow> HuffmanNode \<Rightarrow> HuffmanNode list" where
  "heappush heap item = siftdown (heap @ [item]) 0 (length (heap @ [item]) - 1)"

text \<open>
  \<^verbatim>\<open>heapq.heappop(heap)\<close>: \<^verbatim>\<open>heap.pop()\<close> raises IndexError on the empty list; otherwise the last
  element replaces the root, which is returned, and is sifted up.
\<close>

definition heappop :: "HuffmanNode list \<Rightarrow> error + (HuffmanNode \<times> HuffmanNode list)" where
  "heappop heap =
     (if heap = [] then Inl IndexError
      else
        (let lastelt = last heap;
             heap1 = butlast heap
         in if heap1 \<noteq> []
            then (let returnitem = heap1 ! 0;
                      heap2 = heap1[0 := lastelt]
                  in Inr (returnitem, siftup heap2 0))
            else Inr (lastelt, heap1)))"

lemma length_siftdown_loop [simp]:
  "length (siftdown_loop heap newitem startpos pos) = length heap"
  by (induction heap newitem startpos pos rule: siftdown_loop.induct)
     (subst siftdown_loop.simps, simp add: Let_def)

lemma length_siftdown [simp]: "length (siftdown heap startpos pos) = length heap"
  by (simp add: siftdown_def)

lemma length_siftup_loop [simp]:
  "length (fst (siftup_loop heap endpos pos childpos)) = length heap"
  by (induction heap endpos pos childpos rule: siftup_loop.induct)
     (subst siftup_loop.simps, simp add: Let_def)

lemma length_siftup [simp]: "length (siftup heap pos) = length heap"
proof -
  obtain h p where lp: "siftup_loop heap (length heap) pos (2 * pos + 1) = (h, p)"
    by (cases "siftup_loop heap (length heap) pos (2 * pos + 1)")
  have "length (fst (siftup_loop heap (length heap) pos (2 * pos + 1))) = length heap"
    by (rule length_siftup_loop)
  then have "length h = length heap"
    unfolding lp by simp
  then show ?thesis
    unfolding siftup_def Let_def lp by simp
qed

lemma length_heappush [simp]: "length (heappush heap item) = Suc (length heap)"
  by (simp add: heappush_def)

lemma length_heappop:
  "heappop heap = Inr (x, heap') \<Longrightarrow> Suc (length heap') = length heap"
proof (cases heap rule: rev_cases)
  case Nil
  assume "heappop heap = Inr (x, heap')"
  with Nil show ?thesis
    by (simp add: heappop_def)
next
  case (snoc ys y)
  assume "heappop heap = Inr (x, heap')"
  with snoc show ?thesis
    by (auto simp: heappop_def Let_def split: if_splits)
qed


section \<open>Frequencies, tree and code table\<close>

text \<open>
  \<^verbatim>\<open>calculate_frequencies\<close>: \<^verbatim>\<open>frequencies[pixel] += 1\<close> on a \<^verbatim>\<open>defaultdict(int)\<close>, whose
  missing keys read as 0. The keys are in the order of first appearance.
\<close>

definition calculate_frequencies :: "Symbol list \<Rightarrow> (Symbol, nat) dict" where
  "calculate_frequencies pixel_array =
     foldl (\<lambda>frequencies pixel.
              AList.update pixel
                ((case map_of frequencies pixel of None \<Rightarrow> 0 | Some c \<Rightarrow> c) + 1) frequencies)
       [] pixel_array"

text \<open>Lines 35-38 of \<^verbatim>\<open>build_huffman_tree\<close>: one leaf per entry, pushed in dict order.\<close>

definition push_leaves :: "(Symbol, nat) dict \<Rightarrow> HuffmanNode list" where
  "push_leaves frequencies =
     foldl (\<lambda>heap (v, f). heappush heap (Leaf v f)) [] frequencies"

text \<open>Lines 40-48: pop the two smallest nodes and push their parent, while two are left.\<close>

function merge_loop :: "HuffmanNode list \<Rightarrow> error + HuffmanNode list" where
  "merge_loop heap =
     (if length heap > 1 then
        (case heappop heap of
           Inl e \<Rightarrow> Inl e
         | Inr (l, heap1) \<Rightarrow>
             (case heappop heap1 of
                Inl e \<Rightarrow> Inl e
              | Inr (r, heap2) \<Rightarrow>
                  merge_loop (heappush heap2 (Internal (freq l + freq r) l r))))
      else Inr heap)"
  by pat_completeness auto
termination
proof (relation "measure length")
  show "wf (measure length)"
    by simp
next
  fix heap :: "HuffmanNode list" and x l heap1 y r heap2
  assume "heappop heap = Inr x" "(l, heap1) = x" "heappop heap1 = Inr y" "(r, heap2) = y"
  then have "Suc (length heap1) = length heap" "Suc (length heap2) = length heap1"
    by (auto dest: length_heappop)
  then show "(heappush heap2 (Internal (freq l + freq r) l r), heap) \<in> measure length"
    by simp
qed

declare merge_loop.simps [simp del]

text \<open>
  \<^verbatim>\<open>build_huffman_tree\<close>: line 50 reads \<^verbatim>\<open>heap[0]\<close>, which raises IndexError when no leaf
  was pushed; otherwise the root is stored in \<^verbatim>\<open>self.huffman_tree\<close>.
\<close>

definition build_huffman_tree ::
  "ImageCompressor \<Rightarrow> (Symbol, nat) dict \<Rightarrow> error + ImageCompressor" where
  "build_huffman_tree self frequencies =
     (case merge_loop (push_leaves frequencies) of
        Inl e \<Rightarrow> Inl e
      | Inr heap \<Rightarrow>
          (case heap of
             [] \<Rightarrow> Inl IndexError
           | node # _ \<Rightarrow> Inr (self\<lparr>huffman_tree := Some node\<rparr>)))"

text \<open>
  Lines 56-61 of \<^verbatim>\<open>generate_huffman_codes\<close>, on the dict \<^verbatim>\<open>self.huffman_codes\<close>: a leaf
  stores the accumulated code under its value, an internal node walks left with \<^verbatim>\<open>"0"\<close>
  appended and then right with \<^verbatim>\<open>"1"\<close> appended.
\<close>

fun generate_codes_from ::
  "HuffmanNode \<Rightarrow> string \<Rightarrow> (Symbol, string) dict \<Rightarrow> (Symbol, string) dict" where
  "generate_codes_from (Leaf v f) code codes = AList.update v code codes"
| "generate_codes_from (Internal f l r) code codes =
     generate_codes_from r (code @ ''1'') (generate_codes_from l (code @ ''0'') codes)"

text \<open>
  \<^verbatim>\<open>generate_huffman_codes(node=None, code="")\<close>: a missing node is the stored tree (lines
  53-54); reading \<^verbatim>\<open>.value\<close> of a tree that was never built raises AttributeError.
\<close>

definition generate_huffman_codes ::
  "ImageCompressor \<Rightarrow> HuffmanNode option \<Rightarrow> string \<Rightarrow> error + ImageCompressor" where
  "generate_huffman_codes self node code =
     (case (case node of None \<Rightarrow> huffman_tree self | Some n \<Rightarrow> Some n) of
        None \<Rightarrow> Inl AttributeError
      | Some n \<Rightarrow>
          Inr (self\<lparr>huffman_codes := generate_codes_from n code (huffman_codes self)\<rparr>))"

section \<open>Encoding and the two written files\<close>

text \<open>\<^verbatim>\<open>encode_image\<close>: \<^verbatim>\<open>self.huffman_codes[pixel]\<close> raises KeyError on a missing key.\<close>

fun encode_loop :: "(Symbol, string) dict \<Rightarrow> string \<Rightarrow> Symbol list \<Rightarrow> error + string" where
  "encode_loop codes encoded_data [] = Inr encoded_data"
| "encode_loop codes encoded_data (pixel # pixels) =
     (case map_of codes pixel of
        None \<Rightarrow> Inl KeyError
      | Some c \<Rightarrow> encode_loop codes (encoded_data @ c) pixels)"

definition encode_image :: "ImageCompressor \<Rightarrow> Symbol list \<Rightarrow> error + string" where
  "encode_image self pixel_array = encode_loop (huffman_codes self) [] pixel_array"

text \<open>
  \<^verbatim>\<open>int(byte, 2)\<close> on a non-empty string of \<^verbatim>\<open>'0'\<close> and \<^verbatim>\<open>'1'\<close>, most significant bit first.
  The strings that \<^verbatim>\<open>save_compressed\<close> slices are of this form; any other string is
  reported as ValueError.
\<close>

definition is_bit :: "char \<Rightarrow> bool" where
  "is_bit c = (c = CHR ''0'' \<or> c = CHR ''1'')"

definition int_base2 :: "string \<Rightarrow> error + nat" where
  "int_base2 s =
     (if s \<noteq> [] \<and> list_all is_bit s
      then Inr (foldl (\<lambda>n c. 2 * n + (if c = CHR ''1'' then 1 else 0)) 0 s)
      else Inl ValueError)"

text \<open>
  Lines 74-76: \<^verbatim>\<open>for i in range(0, len(encoded_data), 8)\<close> with the slice
  \<^verbatim>\<open>encoded_data[i:i+8]\<close>; \<^verbatim>\<open>bytearray.append\<close> accepts values below 256 only.
\<close>

function pack_loop :: "string \<Rightarrow> nat \<Rightarrow> byte list \<Rightarrow> error + byte list" where
  "pack_loop encoded_data i byte_array =
     (if i < length encoded_data then
        (case int_base2 (take 8 (drop i encoded_data)) of
           Inl e \<Rightarrow> Inl e
         | Inr n \<Rightarrow>
             (if n < 256 then pack_loop encoded_data (i + 8) (byte_array @ [of_nat n])
              else Inl ValueError))
      else Inr byte_array)"
  by pat_completeness auto
termination
  by (relation "measure (\<lambda>(encoded_data, i, byte_array). length encoded_data - i)") auto

declare pack_loop.simps [simp del]

text \<open>\<^verbatim>\<open>str(k)\<close> of a non-negative integer: its decimal digits.\<close>

definition digit_char :: "nat \<Rightarrow> char" where
  "digit_char d = char_of (48 + d)"

function str :: "nat \<Rightarrow> string" where
  "str n = (if n < 10 then [digit_char n] else str (n div 10) @ [digit_char (n mod 10)])"
  by pat_completeness auto
termination
  by (relation "measure id") auto

declare str.simps [simp del]

text \<open>
  The file \<^verbatim>\<open>output_path + "_codes.json"\<close> is kept as the members of its JSON object, in
  order: decimal key and code string. The file \<^verbatim>\<open>output_path + ".bin"\<close> is its bytes.
\<close>

record CompressedFiles =
  bin_file :: "byte list"
  codes_file :: "(string, string) dict"

text \<open>
  \<^verbatim>\<open>save_compressed\<close>. The padded string is local to the function: the caller's
  \<^verbatim>\<open>encoded_data\<close> stays unpadded. \<^verbatim>\<open>bytes([padded_length])\<close> accepts values below 256 only.
\<close>

definition save_compressed ::
  "string \<Rightarrow> (Symbol, string) dict \<Rightarrow> error + CompressedFiles" where
  "save_compressed encoded_data codes =
     (let padded_length = 8 - (length encoded_data mod 8);
          encoded_data' = encoded_data @ replicate padded_length (CHR ''0'')
      in case pack_loop encoded_data' 0 [] of
           Inl e \<Rightarrow> Inl e
         | Inr byte_array \<Rightarrow>
             (if padded_length < 256
              then Inr \<lparr>bin_file = of_nat padded_length # byte_array,
                        codes_file = dict_of_items (map (\<lambda>(k, v). (str k, v)) codes)\<rparr>
              else Inl ValueError))"

text \<open>
  \<^verbatim>\<open>calculate_compression_ratio\<close>: Python's true division, which raises on a zero divisor.
  The quotient is kept exact, as a rational number; the Python float is its rounding.
\<close>

definition calculate_compression_ratio :: "nat \<Rightarrow> nat \<Rightarrow> error + rat" where
  "calculate_compression_ratio original_size compressed_size =
     (if original_size = 0 then Inl ZeroDivisionError
      else Inr (of_nat compressed_size / of_nat original_size * 100))"


section \<open>Decoding\<close>

text \<open>
  \<^verbatim>\<open>int(k)\<close> on a non-empty string of decimal digits, as \<^verbatim>\<open>str\<close> writes them; any other key
  is reported as ValueError.
\<close>

definition is_digit :: "char \<Rightarrow> bool" where
  "is_digit c = (48 \<le> (of_char c :: nat) \<and> (of_char c :: nat) \<le> 57)"

definition int_base10 :: "string \<Rightarrow> error + nat" where
  "int_base10 s =
     (if s \<noteq> [] \<and> list_all is_digit s
      then Inr (foldl (\<lambda>n c. 10 * n + (of_char c - 48)) 0 s)
      else Inl ValueError)"

text \<open>Line 91: \<^verbatim>\<open>{int(k): v for k, v in codes.items()}\<close>; the first bad key raises.\<close>

fun int_keys :: "(string \<times> string) list \<Rightarrow> error + (Symbol \<times> string) list" where
  "int_keys [] = Inr []"
| "int_keys ((k, v) # kvs) =
     (case int_base10 k of
        Inl e \<Rightarrow> Inl e
      | Inr n \<Rightarrow> (case int_keys kvs of Inl e \<Rightarrow> Inl e | Inr rest \<Rightarrow> Inr ((n, v) # rest)))"

text \<open>\<^verbatim>\<open>format(byte, '08b')\<close>: the eight binary digits of a byte, most significant first.\<close>

fun bin_digits :: "nat \<Rightarrow> nat \<Rightarrow> string" where
  "bin_digits 0 n = []"
| "bin_digits (Suc k) n = bin_digits k (n div 2) @ [if odd n then CHR ''1'' else CHR ''0'']"

definition format_08b :: "byte \<Rightarrow> string" where
  "format_08b b = bin_digits 8 (unat b)"

text \<open>
  Lines 93-100: the first byte of the file is the padding length (\<^verbatim>\<open>int.from_bytes\<close> of
  an empty read is 0), the other bytes are expanded to bits, and the slice
  \<^verbatim>\<open>binary_data[:-padding_length]\<close> drops that many bits from the end (all of them when
  there are fewer).
\<close>

definition read_binary_data :: "byte list \<Rightarrow> string" where
  "read_binary_data file =
     (let padding_length = (case file of [] \<Rightarrow> 0 | b # _ \<Rightarrow> unat b);
          byte_data = drop 1 file;
          binary_data = concat (map format_08b byte_data)
      in if padding_length > 0
         then take (length binary_data - padding_length) binary_data
         else binary_data)"

text \<open>
  Lines 106-110: each bit extends the candidate code; a candidate that is a key of
  \<^verbatim>\<open>reverse_codes\<close> emits its symbol and is reset. The loop returns the candidate left at
  the end together with the decoded pixels.
\<close>

fun decode_loop ::
  "(string, Symbol) dict \<Rightarrow> string \<Rightarrow> Symbol list \<Rightarrow> string \<Rightarrow> string \<times> Symbol list" where
  "decode_loop reverse_codes current_code decoded_pixels [] = (current_code, decoded_pixels)"
| "decode_loop reverse_codes current_code decoded_pixels (b # bits) =
     (case map_of reverse_codes (current_code @ [b]) of
        Some pixel \<Rightarrow> decode_loop reverse_codes [] (decoded_pixels @ [pixel]) bits
      | None \<Rightarrow> decode_loop reverse_codes (current_code @ [b]) decoded_pixels bits)"

text \<open>
  \<^verbatim>\<open>decode_image\<close>, on the two files and \<^verbatim>\<open>original_size = (width, height)\<close>. Nothing is
  done with the candidate code that the loop leaves. \<^verbatim>\<open>np.array(..., dtype=np.uint8)\<close>
  rejects a value outside \<open>[0,255]\<close> (OverflowError, NumPy 2), and \<^verbatim>\<open>reshape\<close> raises
  ValueError unless the number of pixels is height times width. The result is the
  content of the saved image, row by row.
\<close>

definition decode_image :: "CompressedFiles \<Rightarrow> nat \<times> nat \<Rightarrow> error + Symbol list" where
  "decode_image files original_size =
     (case int_keys (codes_file files) of
        Inl e \<Rightarrow> Inl e
      | Inr items \<Rightarrow>
          (let codes = dict_of_items items;
               binary_data = read_binary_data (bin_file files);
               reverse_codes = dict_of_items (map (\<lambda>(k, v). (v, k)) codes);
               (current_code, decoded_pixels) = decode_loop reverse_codes [] [] binary_data
           in if \<not> list_all (\<lambda>p. p < 256) decoded_pixels then Inl OverflowError
              else if length decoded_pixels \<noteq> snd original_size * fst original_size
              then Inl ValueError
              else Inr decoded_pixels))"

section \<open>The orchestrator\<close>

record Stats =
  original_size :: "nat \<times> nat"
  compression_ratio :: rat
  original_bits :: nat
  compressed_bits :: nat

text \<open>
  \<^verbatim>\<open>compress\<close>, on the result \<^verbatim>\<open>(pixel_array, original_size)\<close> of \<^verbatim>\<open>read_image\<close> (the
  image size is \<open>img_size\<close> here). It returns
  the instance after the call, the two files written and the statistics.
\<close>

definition compress ::
  "ImageCompressor \<Rightarrow> Symbol list \<Rightarrow> nat \<times> nat
     \<Rightarrow> error + (ImageCompressor \<times> CompressedFiles \<times> Stats)" where
  "compress self pixel_array img_size =
     (let frequencies = calculate_frequencies pixel_array
      in case build_huffman_tree self frequencies of
           Inl e \<Rightarrow> Inl e
         | Inr self1 \<Rightarrow>
        (case generate_huffman_codes self1 None [] of
           Inl e \<Rightarrow> Inl e
         | Inr self2 \<Rightarrow>
        (case encode_image self2 pixel_array of
           Inl e \<Rightarrow> Inl e
         | Inr encoded_data \<Rightarrow>
        (case save_compressed encoded_data (huffman_codes self2) of
           Inl e \<Rightarrow> Inl e
         | Inr files \<Rightarrow>
        (let original_bits = length pixel_array * 8;
             compressed_bits = length encoded_data
         in case calculate_compression_ratio original_bits compressed_bits of
              Inl e \<Rightarrow> Inl e
            | Inr ratio \<Rightarrow>
                Inr (self2, files,
                     \<lparr>original_size = img_size, compression_ratio = ratio,
                      original_bits = original_bits,
                      compressed_bits = compressed_bits\<rparr>))))))"


section \<open>Specification functions\<close>

text \<open>The symbols at the leaves of a tree, from left to right.\<close>

fun symbols :: "HuffmanNode \<Rightarrow> Symbol list" where
  "symbols (Leaf v f) = [v]"
| "symbols (Internal f l r) = symbols l @ symbols r"

text \<open>
  The code of every leaf of a tree, from left to right: the path from the root, \<^verbatim>\<open>'0'\<close> for
  a left edge and \<^verbatim>\<open>'1'\<close> for a right edge, after the code given for the root.
\<close>

fun tree_codes :: "HuffmanNode \<Rightarrow> string \<Rightarrow> (Symbol \<times> string) list" where
  "tree_codes (Leaf v f) code = [(v, code)]"
| "tree_codes (Internal f l r) code =
     tree_codes l (code @ ''0'') @ tree_codes r (code @ ''1'')"

text \<open>All the symbols at the leaves of the trees of a heap.\<close>

definition heap_symbols :: "HuffmanNode list \<Rightarrow> Symbol multiset" where
  "heap_symbols heap = sum_mset (image_mset (\<lambda>t. mset (symbols t)) (mset heap))"


text \<open>A sequence of dict assignments \<^verbatim>\<open>d[k] = v\<close>, in order.\<close>

definition updates :: "('k \<times> 'v) list \<Rightarrow> ('k, 'v) dict \<Rightarrow> ('k, 'v) dict" where
  "updates kvs d = foldl (\<lambda>d (k, v). AList.update k v d) d kvs"

section \<open>The heap keeps its elements\<close>

lemma mset_update_swap:
  assumes "pos < length xs" "pp < length xs"
  shows "mset (xs[pos := xs ! pp, pp := x]) = mset (xs[pos := x])"
proof (cases "pp = pos")
  case True
  then show ?thesis by simp
next
  case False
  define ys where "ys = xs[pos := x]"
  have "mset (ys[pos := ys ! pp, pp := ys ! pos]) = mset ys"
    using assms by (intro mset_swap) (simp_all add: ys_def)
  moreover have "ys[pos := ys ! pp, pp := ys ! pos] = xs[pos := xs ! pp, pp := x]"
    using assms False by (simp add: ys_def)
  ultimately show ?thesis
    by (simp add: ys_def)
qed

lemma mset_siftdown_loop:
  "pos < length heap \<Longrightarrow>
   mset (siftdown_loop heap newitem startpos pos) = mset (heap[pos := newitem])"
proof (induction heap newitem startpos pos rule: siftdown_loop.induct)
  case (1 heap newitem startpos pos)
  show ?case
  proof (cases "pos > startpos \<and> lt newitem (heap ! ((pos - 1) div 2))")
    case True
    then have pp: "(pos - 1) div 2 < length heap"
      using "1.prems" by simp
    have "mset (siftdown_loop heap newitem startpos pos) =
          mset (siftdown_loop (heap[pos := heap ! ((pos - 1) div 2)]) newitem startpos ((pos - 1) div 2))"
      using True by (subst siftdown_loop.simps) (simp add: Let_def)
    also have "\<dots> = mset (heap[pos := heap ! ((pos - 1) div 2), (pos - 1) div 2 := newitem])"
      using True pp "1.IH" [OF _ refl refl] by simp
    also have "\<dots> = mset (heap[pos := newitem])"
      using "1.prems" pp by (rule mset_update_swap)
    finally show ?thesis .
  next
    case False
    then show ?thesis
      by (subst siftdown_loop.simps) (auto simp: Let_def)
  qed
qed

lemma mset_siftdown: "pos < length heap \<Longrightarrow> mset (siftdown heap startpos pos) = mset heap"
  by (simp add: siftdown_def mset_siftdown_loop)

lemma siftup_loop_hole:
  "pos < length heap \<Longrightarrow> endpos \<le> length heap \<Longrightarrow>
   siftup_loop heap endpos pos childpos = (heap', pos') \<Longrightarrow>
   pos' < length heap \<and> length heap' = length heap \<and> mset (heap'[pos' := x]) = mset (heap[pos := x])"
proof (induction heap endpos pos childpos rule: siftup_loop.induct)
  case (1 heap endpos pos childpos)
  show ?case
  proof (cases "childpos < endpos")
    case False
    then show ?thesis
      using "1.prems" by (subst (asm) siftup_loop.simps) auto
  next
    case True
    define c where "c = (if childpos + 1 < endpos \<and> \<not> lt (heap ! childpos) (heap ! (childpos + 1))
                          then childpos + 1 else childpos)"
    have c: "c < length heap"
      using True "1.prems"(2) by (auto simp: c_def)
    have "siftup_loop heap endpos pos childpos =
          siftup_loop (heap[pos := heap ! c]) endpos c (2 * c + 1)"
      unfolding c_def using True by (subst siftup_loop.simps) (simp only: Let_def if_True)
    then have step: "siftup_loop (heap[pos := heap ! c]) endpos c (2 * c + 1) = (heap', pos')"
      using "1.prems"(3) by simp
    have "pos' < length (heap[pos := heap ! c]) \<and> length heap' = length (heap[pos := heap ! c]) \<and>
          mset (heap'[pos' := x]) = mset (heap[pos := heap ! c, c := x])"
      using "1.IH" [OF True refl refl, folded c_def, OF _ _ step] c "1.prems"(2)
      by simp
    moreover have "mset (heap[pos := heap ! c, c := x]) = mset (heap[pos := x])"
      using "1.prems"(1) c by (rule mset_update_swap)
    ultimately show ?thesis by simp
  qed
qed


lemma mset_siftup: "pos < length heap \<Longrightarrow> mset (siftup heap pos) = mset heap"
proof -
  assume pos: "pos < length heap"
  obtain h p where lp: "siftup_loop heap (length heap) pos (2 * pos + 1) = (h, p)"
    by (cases "siftup_loop heap (length heap) pos (2 * pos + 1)")
  from siftup_loop_hole [OF pos le_refl lp, of "heap ! pos"]
  have "p < length heap" "length h = length heap" "mset (h[p := heap ! pos]) = mset heap"
    by simp_all
  then have "mset (siftdown (h[p := heap ! pos]) pos p) = mset heap"
    by (simp add: mset_siftdown)
  then show ?thesis
    unfolding siftup_def Let_def lp by simp
qed

lemma mset_heappush: "mset (heappush heap item) = add_mset item (mset heap)"
  by (simp add: heappush_def mset_siftdown)

lemma heappop_Nil: "heappop [] = Inl IndexError"
  by (simp add: heappop_def)

lemma heappop_nonempty:
  assumes "heap \<noteq> []"
  shows "\<exists>x heap'. heappop heap = Inr (x, heap') \<and> mset heap = add_mset x (mset heap')"
proof (cases heap rule: rev_cases)
  case Nil
  with assms show ?thesis by simp
next
  case (snoc ys y)
  show ?thesis
  proof (cases "ys = []")
    case True
    with snoc show ?thesis
      by (simp add: heappop_def)
  next
    case False
    then have pop: "heappop heap = Inr (ys ! 0, siftup (ys[0 := y]) 0)"
      using snoc by (simp add: heappop_def)
    have "mset (siftup (ys[0 := y]) 0) = mset (ys[0 := y])"
      using False by (intro mset_siftup) simp
    also have "\<dots> = add_mset y (mset ys - {#ys ! 0#})"
      using False by (simp add: mset_update)
    finally have "add_mset (ys ! 0) (mset (siftup (ys[0 := y]) 0)) = add_mset y (mset ys)"
      using False by (simp add: add_mset_commute)
    with pop snoc show ?thesis
      by simp
  qed
qed


lemma heap_symbols_cong: "mset heap = mset heap' \<Longrightarrow> heap_symbols heap = heap_symbols heap'"
  by (simp add: heap_symbols_def)

lemma heap_symbols_heappush:
  "heap_symbols (heappush heap item) = mset (symbols item) + heap_symbols heap"
  by (simp add: heap_symbols_def mset_heappush)

lemma heap_symbols_heappop:
  assumes "heappop heap = Inr (x, heap')"
  shows "heap_symbols heap = mset (symbols x) + heap_symbols heap'"
proof -
  have "heap \<noteq> []"
    using assms by (auto simp: heappop_Nil)
  from heappop_nonempty [OF this] assms show ?thesis
    by (auto simp: heap_symbols_def)
qed

lemma merge_loop_single:
  "heap \<noteq> [] \<Longrightarrow> \<exists>t. merge_loop heap = Inr [t] \<and> mset (symbols t) = heap_symbols heap"
proof (induction heap rule: merge_loop.induct)
  case (1 heap)
  show ?case
  proof (cases "length heap > 1")
    case False
    with "1.prems" obtain t where "heap = [t]"
      by (cases heap) auto
    then show ?thesis
      by (subst merge_loop.simps) (simp add: heap_symbols_def)
  next
    case True
    obtain l heap1 where pop1: "heappop heap = Inr (l, heap1)"
      using heappop_nonempty [OF "1.prems"] by blast
    have "Suc (length heap1) = length heap"
      using pop1 by (rule length_heappop)
    with True have "heap1 \<noteq> []"
      by auto
    then obtain r heap2 where pop2: "heappop heap1 = Inr (r, heap2)"
      using heappop_nonempty by blast
    let ?new = "heappush heap2 (Internal (freq l + freq r) l r)"
    have "length ?new \<noteq> 0"
      by simp
    then have "?new \<noteq> []"
      by (metis list.size(3))
    from "1.IH" [OF True pop1 refl pop2 refl this]
    obtain t where t: "merge_loop ?new = Inr [t]" "mset (symbols t) = heap_symbols ?new"
      by blast
    have "merge_loop heap = merge_loop ?new"
      using True pop1 pop2 by (subst merge_loop.simps) simp
    moreover have "heap_symbols ?new = heap_symbols heap"
      by (simp add: heap_symbols_heappush heap_symbols_heappop [OF pop1]
          heap_symbols_heappop [OF pop2])
    ultimately show ?thesis
      using t by simp
  qed
qed


section \<open>Dict assignments\<close>

lemma updates_Nil [simp]: "updates [] d = d"
  by (simp add: updates_def)

lemma updates_Cons [simp]: "updates ((k, v) # kvs) d = updates kvs (AList.update k v d)"
  by (simp add: updates_def)

lemma updates_append [simp]: "updates (xs @ ys) d = updates ys (updates xs d)"
  by (simp add: updates_def)

lemma dict_of_items_updates: "dict_of_items kvs = updates kvs []"
  by (simp add: dict_of_items_def updates_def)

lemma distinct_updates: "distinct (map fst d) \<Longrightarrow> distinct (map fst (updates kvs d))"
  by (induction kvs arbitrary: d) (auto simp: distinct_update)

lemma keys_updates: "fst ` set (updates kvs d) = fst ` set d \<union> fst ` set kvs"
proof (induction kvs arbitrary: d)
  case Nil
  then show ?case by simp
next
  case (Cons a kvs)
  obtain k v where a: "a = (k, v)" by (cases a)
  show ?case
    unfolding a updates_Cons Cons.IH dom_update by auto
qed

lemma map_of_updates: "map_of (updates kvs d) = map_of d ++ map_of (rev kvs)"
proof (induction kvs arbitrary: d)
  case Nil
  then show ?case by simp
next
  case (Cons a kvs)
  obtain k v where a: "a = (k, v)" by (cases a)
  show ?case
    by (rule ext) (simp add: a Cons.IH update_conv map_add_def split: option.splits)
qed

lemma map_of_updates_distinct:
  "distinct (map fst kvs) \<Longrightarrow> map_of (updates kvs d) = map_of d ++ map_of kvs"
proof -
  assume "distinct (map fst kvs)"
  then have "map_of (rev kvs) = map_of kvs"
    by (intro map_of_inject_set [THEN iffD2]) (simp_all add: rev_map [symmetric])
  then show ?thesis
    by (simp add: map_of_updates)
qed

lemma updates_fresh:
  "distinct (map fst kvs) \<Longrightarrow> fst ` set kvs \<inter> fst ` set d = {} \<Longrightarrow> updates kvs d = d @ kvs"
proof (induction kvs arbitrary: d)
  case Nil
  then show ?case by simp
next
  case (Cons a kvs)
  obtain k v where a: "a = (k, v)" by (cases a)
  have fresh: "k \<notin> fst ` set d"
    using Cons.prems(2) by (auto simp: a)
  then have upd: "AList.update k v d = d @ [(k, v)]"
    by (induction d) auto
  have "updates kvs (d @ [(k, v)]) = (d @ [(k, v)]) @ kvs"
    using Cons.prems by (intro Cons.IH) (auto simp: a)
  then show ?case
    by (simp add: a upd)
qed

lemma dict_of_items_distinct: "distinct (map fst kvs) \<Longrightarrow> dict_of_items kvs = kvs"
  using updates_fresh [of kvs "[]"] by (simp add: dict_of_items_updates)

lemma updates_triv:
  "\<forall>(k, v) \<in> set kvs. map_of d k = Some v \<Longrightarrow> updates kvs d = d"
  by (induction kvs) (auto simp: update_triv)

lemma updates_idem:
  assumes "distinct (map fst kvs)"
  shows "updates kvs (updates kvs d) = updates kvs d"
proof (rule updates_triv, clarify)
  fix k v
  assume "(k, v) \<in> set kvs"
  then have "map_of kvs k = Some v"
    using assms by simp
  then show "map_of (updates kvs d) k = Some v"
    by (simp add: map_of_updates_distinct [OF assms])
qed


section \<open>The tree holds the symbols of the frequency table\<close>

lemma calculate_frequencies_Nil [simp]: "calculate_frequencies [] = []"
  by (simp add: calculate_frequencies_def)

lemma frequencies_fold_keys:
  fixes g :: "(Symbol, nat) dict \<Rightarrow> Symbol \<Rightarrow> nat"
  shows "fst ` set (foldl (\<lambda>fr p. AList.update p (g fr p) fr) d ps) = fst ` set d \<union> set ps"
  by (induction ps arbitrary: d) (auto simp: dom_update)

lemma frequencies_fold_distinct:
  fixes g :: "(Symbol, nat) dict \<Rightarrow> Symbol \<Rightarrow> nat"
  shows "distinct (map fst d) \<Longrightarrow>
         distinct (map fst (foldl (\<lambda>fr p. AList.update p (g fr p) fr) d ps))"
  by (induction ps arbitrary: d) (auto simp: distinct_update)

lemma keys_calculate_frequencies:
  "set (map fst (calculate_frequencies pixel_array)) = set pixel_array"
  using frequencies_fold_keys [of _ "[]" pixel_array]
  by (simp add: calculate_frequencies_def)

lemma distinct_calculate_frequencies:
  "distinct (map fst (calculate_frequencies pixel_array))"
  unfolding calculate_frequencies_def by (rule frequencies_fold_distinct) simp

lemma calculate_frequencies_nonempty:
  "pixel_array \<noteq> [] \<Longrightarrow> calculate_frequencies pixel_array \<noteq> []"
  using keys_calculate_frequencies [of pixel_array] by auto

lemma push_leaves_fold:
  "heap_symbols (foldl (\<lambda>heap (v, f). heappush heap (Leaf v f)) heap fs) =
     heap_symbols heap + mset (map fst fs) \<and>
   length (foldl (\<lambda>heap (v, f). heappush heap (Leaf v f)) heap fs) = length heap + length fs"
  by (induction fs arbitrary: heap) (auto simp: heap_symbols_heappush)

lemma heap_symbols_push_leaves: "heap_symbols (push_leaves fs) = mset (map fst fs)"
  using push_leaves_fold [of "[]" fs] by (simp add: push_leaves_def heap_symbols_def)

lemma length_push_leaves: "length (push_leaves fs) = length fs"
  using push_leaves_fold [of "[]" fs] by (simp add: push_leaves_def)

lemma build_huffman_tree_Nil: "build_huffman_tree self [] = Inl IndexError"
  by (simp add: build_huffman_tree_def push_leaves_def merge_loop.simps)

lemma build_huffman_tree_nonempty:
  assumes "frequencies \<noteq> []"
  shows "\<exists>t. mset (symbols t) = mset (map fst frequencies) \<and>
             (\<forall>self. build_huffman_tree self frequencies = Inr (self\<lparr>huffman_tree := Some t\<rparr>))"
proof -
  have "push_leaves frequencies \<noteq> []"
    using assms length_push_leaves [of frequencies] by auto
  from merge_loop_single [OF this] heap_symbols_push_leaves [of frequencies]
  show ?thesis
    by (auto simp: build_huffman_tree_def)
qed

section \<open>The codes of a tree\<close>

lemma generate_codes_from_updates:
  "generate_codes_from t code codes = updates (tree_codes t code) codes"
  by (induction t arbitrary: code codes) simp_all

lemma keys_tree_codes [simp]: "map fst (tree_codes t code) = symbols t"
  by (induction t arbitrary: code) simp_all

lemma tree_codes_prefix: "(s, c) \<in> set (tree_codes t code) \<Longrightarrow> prefix code c"
proof (induction t arbitrary: code)
  case (Leaf v f)
  then show ?case by simp
next
  case (Internal f l r)
  then show ?case
    by (auto dest!: Internal.IH intro: append_prefixD)
qed

lemma tree_codes_bits:
  "(s, c) \<in> set (tree_codes t code) \<Longrightarrow> list_all is_bit code \<Longrightarrow> list_all is_bit c"
  by (induction t arbitrary: code) (auto simp: is_bit_def)

lemma not_prefix_01: "prefix (code @ ''0'') a \<Longrightarrow> prefix (code @ ''1'') b \<Longrightarrow> \<not> prefix a b \<and> \<not> prefix b a"
  by (auto simp: prefix_def)

lemma tree_codes_prefix_free:
  "distinct (symbols t) \<Longrightarrow> (a, ca) \<in> set (tree_codes t code) \<Longrightarrow>
   (b, cb) \<in> set (tree_codes t code) \<Longrightarrow> a \<noteq> b \<Longrightarrow> \<not> prefix ca cb"
proof (induction t arbitrary: code)
  case (Leaf v f)
  then show ?case by simp
next
  case (Internal f l r)
  from Internal.prems(2,3) consider
      "(a, ca) \<in> set (tree_codes l (code @ ''0''))" "(b, cb) \<in> set (tree_codes l (code @ ''0''))"
    | "(a, ca) \<in> set (tree_codes r (code @ ''1''))" "(b, cb) \<in> set (tree_codes r (code @ ''1''))"
    | "(a, ca) \<in> set (tree_codes l (code @ ''0''))" "(b, cb) \<in> set (tree_codes r (code @ ''1''))"
    | "(a, ca) \<in> set (tree_codes r (code @ ''1''))" "(b, cb) \<in> set (tree_codes l (code @ ''0''))"
    by auto
  then show ?case
  proof cases
    case 1
    with Internal.IH(1) Internal.prems(1,4) show ?thesis by simp
  next
    case 2
    with Internal.IH(2) Internal.prems(1,4) show ?thesis by simp
  next
    case 3
    then show ?thesis
      using not_prefix_01 tree_codes_prefix by blast
  next
    case 4
    then show ?thesis
      using not_prefix_01 tree_codes_prefix by blast
  qed
qed

section \<open>Bits and bytes\<close>

lemma bits_val_snoc:
  "foldl (\<lambda>n c. 2 * n + (if c = CHR ''1'' then 1 else 0)) (0::nat) (s @ [c]) =
   2 * foldl (\<lambda>n c. 2 * n + (if c = CHR ''1'' then 1 else 0)) 0 s + (if c = CHR ''1'' then 1 else 0)"
  by simp

lemma bits_val_bound:
  "foldl (\<lambda>n c. 2 * n + (if c = CHR ''1'' then 1 else 0)) (0::nat) s < 2 ^ length s"
  by (induction s rule: rev_induct) auto

lemma bin_digits_bits_val:
  "list_all is_bit s \<Longrightarrow>
   bin_digits (length s) (foldl (\<lambda>n c. 2 * n + (if c = CHR ''1'' then 1 else 0)) 0 s) = s"
  by (induction s rule: rev_induct) (auto simp: is_bit_def)

lemma length_bin_digits [simp]: "length (bin_digits k n) = k"
  by (induction k arbitrary: n) simp_all

lemma length_format_08b [simp]: "length (format_08b b) = 8"
  by (simp add: format_08b_def)

lemma int_base2_byte:
  assumes "list_all is_bit s" "length s = 8"
  shows "\<exists>n. int_base2 s = Inr n \<and> n < 256 \<and> format_08b (of_nat n) = s"
proof -
  let ?n = "foldl (\<lambda>n c. 2 * n + (if c = CHR ''1'' then 1 else 0)) (0::nat) s"
  have n: "?n < 256"
    using bits_val_bound [of s] assms(2) by simp
  then have "unat (of_nat ?n :: byte) = ?n"
    by (simp add: unat_of_nat)
  then have "format_08b (of_nat ?n) = s"
    using bin_digits_bits_val [OF assms(1)] assms(2) by (simp add: format_08b_def)
  moreover have "int_base2 s = Inr ?n"
    using assms by (auto simp: int_base2_def)
  ultimately show ?thesis
    using n by blast
qed

lemma dvd8_step:
  fixes n i :: nat
  assumes "8 dvd (n - i)" "i < n"
  shows "i + 8 \<le> n" "8 dvd (n - (i + 8))" "(n - i) div 8 = Suc ((n - (i + 8)) div 8)"
proof -
  from assms(1) obtain k where k: "n - i = 8 * k"
    by (elim dvdE)
  with assms(2) obtain k' where k': "k = Suc k'"
    by (cases k) auto
  from k k' assms(2) have n: "n = i + 8 + 8 * k'"
    by simp
  show "i + 8 \<le> n" "8 dvd (n - (i + 8))" "(n - i) div 8 = Suc ((n - (i + 8)) div 8)"
    unfolding n by simp_all
qed

lemma pack_loop_bits:
  "list_all is_bit s \<Longrightarrow> i \<le> length s \<Longrightarrow> 8 dvd (length s - i) \<Longrightarrow>
   \<exists>bs. pack_loop s i acc = Inr (acc @ bs) \<and> concat (map format_08b bs) = drop i s \<and>
        length bs = (length s - i) div 8"
proof (induction s i acc rule: pack_loop.induct)
  case (1 s i acc)
  show ?case
  proof (cases "i < length s")
    case False
    with "1.prems" show ?thesis
      by (subst pack_loop.simps) simp
  next
    case True
    with "1.prems"(3) have len: "i + 8 \<le> length s"
      by (intro dvd8_step)
    let ?chunk = "take 8 (drop i s)"
    have "list_all is_bit ?chunk" "length ?chunk = 8"
      using "1.prems"(1) len by (auto simp: list_all_iff dest: in_set_takeD in_set_dropD)
    from int_base2_byte [OF this] obtain n where
      n: "int_base2 ?chunk = Inr n" "n < 256" "format_08b (of_nat n) = ?chunk"
      by blast
    have dvd: "8 dvd (length s - (i + 8))"
      using "1.prems"(3) True by (intro dvd8_step)
    from "1.IH" [OF True n(1) n(2) "1.prems"(1) len dvd]
    obtain bs where bs: "pack_loop s (i + 8) (acc @ [of_nat n]) = Inr ((acc @ [of_nat n]) @ bs)"
      "concat (map format_08b bs) = drop (i + 8) s" "length bs = (length s - (i + 8)) div 8"
      by blast
    have "pack_loop s i acc = pack_loop s (i + 8) (acc @ [of_nat n])"
      using True n by (subst pack_loop.simps) simp
    moreover have "drop i s = ?chunk @ drop (i + 8) s"
      using append_take_drop_id [of 8 "drop i s"] by (simp add: add.commute)
    moreover have "(length s - i) div 8 = Suc ((length s - (i + 8)) div 8)"
      using "1.prems"(3) True by (intro dvd8_step)
    ultimately show ?thesis
      using bs n(3) by (intro exI [of _ "of_nat n # bs"]) simp
  qed
qed

section \<open>Writing and reading the binary file\<close>

lemma padded_length_range: "1 \<le> 8 - (n mod 8 :: nat) \<and> 8 - n mod 8 \<le> 8"
  by (simp add: Suc_le_eq)

lemma save_compressed_bits:
  assumes "list_all is_bit encoded_data"
  shows "\<exists>byte_array.
     concat (map format_08b byte_array) =
       encoded_data @ replicate (8 - length encoded_data mod 8) (CHR ''0'') \<and>
     length byte_array = length encoded_data div 8 + 1 \<and>
     (\<forall>codes. save_compressed encoded_data codes =
        Inr \<lparr>bin_file = of_nat (8 - length encoded_data mod 8) # byte_array,
             codes_file = dict_of_items (map (\<lambda>(k, v). (str k, v)) codes)\<rparr>)"
proof -
  let ?p = "8 - length encoded_data mod 8"
  let ?s = "encoded_data @ replicate ?p (CHR ''0'')"
  have len: "length ?s = 8 * (length encoded_data div 8 + 1)"
    using mult_div_mod_eq [of 8 "length encoded_data"]
      mod_less_divisor [of 8 "length encoded_data"] by (simp del: mod_less_divisor) arith
  have "list_all is_bit ?s"
    using assms by (simp add: list_all_iff is_bit_def)
  moreover have "8 dvd (length ?s - 0)"
    unfolding len by simp
  ultimately obtain bs where bs: "pack_loop ?s 0 [] = Inr ([] @ bs)"
      "concat (map format_08b bs) = drop 0 ?s" "length bs = (length ?s - 0) div 8"
    using pack_loop_bits [of ?s 0 "[]"] by blast
  have "length bs = length encoded_data div 8 + 1"
    unfolding bs(3) len by simp
  moreover have "?p < 256"
    by simp
  ultimately show ?thesis
    using bs(1,2) by (intro exI [of _ bs]) (simp add: save_compressed_def Let_def)
qed

lemma read_binary_data_padded:
  assumes "1 \<le> p" "p \<le> 8" "concat (map format_08b byte_array) = s @ replicate p (CHR ''0'')"
  shows "read_binary_data (of_nat p # byte_array) = s"
proof -
  have "unat (of_nat p :: byte) = p"
    using assms(2) by (simp add: unat_of_nat)
  with assms(1,3) show ?thesis
    by (simp add: read_binary_data_def)
qed

section \<open>Encoding\<close>

lemma encode_loop_concat:
  "list_all (\<lambda>p. map_of codes p \<noteq> None) pixels \<Longrightarrow>
   encode_loop codes acc pixels = Inr (acc @ concat (map (\<lambda>p. the (map_of codes p)) pixels))"
  by (induction pixels arbitrary: acc) auto

lemma encode_loop_KeyError:
  "\<not> list_all (\<lambda>p. map_of codes p \<noteq> None) pixels \<Longrightarrow> encode_loop codes acc pixels = Inl KeyError"
  by (induction pixels arbitrary: acc) (auto split: option.splits)

section \<open>What a run of \<^verbatim>\<open>compress\<close> computes\<close>

lemma map_of_tree_codes:
  assumes "s \<in> set (symbols t)"
  shows "\<exists>c. map_of (tree_codes t code) s = Some c \<and> (s, c) \<in> set (tree_codes t code)"
proof -
  have "s \<in> fst ` set (tree_codes t code)"
    using assms keys_tree_codes [of t code] by (metis set_map)
  then obtain c where "map_of (tree_codes t code) s = Some c"
    by (metis domIff dom_map_of_conv_image_fst not_Some_eq)
  then show ?thesis
    by (blast dest: map_of_SomeD)
qed

lemma map_of_generated:
  assumes "distinct (symbols t)" "s \<in> set (symbols t)"
  shows "map_of (updates (tree_codes t code) codes) s = map_of (tree_codes t code) s"
proof -
  from map_of_tree_codes [OF assms(2)] obtain c where "map_of (tree_codes t code) s = Some c"
    by blast
  then show ?thesis
    using assms(1) by (simp add: map_of_updates_distinct)
qed

lemma encoded_bits:
  assumes "set pixels \<subseteq> set (symbols t)"
  shows "list_all is_bit (concat (map (\<lambda>p. the (map_of (tree_codes t []) p)) pixels))"
proof -
  have "list_all is_bit (the (map_of (tree_codes t []) p))" if "p \<in> set pixels" for p
  proof -
    from that assms map_of_tree_codes [of p t "[]"] obtain c where
      "map_of (tree_codes t []) p = Some c" "(p, c) \<in> set (tree_codes t [])"
      by blast
    then show ?thesis
      using tree_codes_bits [of p c t "[]"] by simp
  qed
  then show ?thesis
    by (auto simp: list_all_iff)
qed

text \<open>
  On a non-empty pixel array \<^verbatim>\<open>compress\<close> returns, whatever the instance held before.
  There is a tree \<open>t\<close>, the same for every instance, with the symbols of the frequency
  table at its leaves; the codes of \<open>t\<close> are assigned into the instance's dict, the pixels
  are encoded with the codes of \<open>t\<close>, and the bytes written after the padding byte expand
  to the padded bit string.
\<close>

lemma compress_nonempty:
  assumes "pixel_array \<noteq> []"
  shows "\<exists>t byte_array encoded_data.
     mset (symbols t) = mset (map fst (calculate_frequencies pixel_array)) \<and>
     encoded_data = concat (map (\<lambda>p. the (map_of (tree_codes t []) p)) pixel_array) \<and>
     concat (map format_08b byte_array) =
       encoded_data @ replicate (8 - length encoded_data mod 8) (CHR ''0'') \<and>
     length byte_array = length encoded_data div 8 + 1 \<and>
     list_all is_bit encoded_data \<and>
     (\<forall>self img_size.
        encode_image
          (self\<lparr>huffman_codes := updates (tree_codes t []) (huffman_codes self),
                huffman_tree := Some t\<rparr>) pixel_array = Inr encoded_data \<and>
        compress self pixel_array img_size =
          Inr (self\<lparr>huffman_codes := updates (tree_codes t []) (huffman_codes self),
                    huffman_tree := Some t\<rparr>,
               \<lparr>bin_file = of_nat (8 - length encoded_data mod 8) # byte_array,
                codes_file =
                  dict_of_items
                    (map (\<lambda>(k, v). (str k, v))
                       (updates (tree_codes t []) (huffman_codes self)))\<rparr>,
               \<lparr>original_size = img_size,
                compression_ratio =
                  of_nat (length encoded_data) / of_nat (length pixel_array * 8) * 100,
                original_bits = length pixel_array * 8,
                compressed_bits = length encoded_data\<rparr>))"
proof -
  let ?fr = "calculate_frequencies pixel_array"
  from build_huffman_tree_nonempty [OF calculate_frequencies_nonempty [OF assms]]
  obtain t where syms: "mset (symbols t) = mset (map fst ?fr)"
    and build: "\<And>self. build_huffman_tree self ?fr = Inr (self\<lparr>huffman_tree := Some t\<rparr>)"
    by blast
  have dist: "distinct (symbols t)"
    using syms distinct_calculate_frequencies [of pixel_array] by (metis mset_eq_imp_distinct_iff)
  have set: "set (symbols t) = set pixel_array"
    using syms keys_calculate_frequencies [of pixel_array] by (metis mset_eq_setD)
  define enc where "enc = concat (map (\<lambda>p. the (map_of (tree_codes t []) p)) pixel_array)"
  have bits: "list_all is_bit enc"
    unfolding enc_def using set by (intro encoded_bits) simp
  from save_compressed_bits [OF this] obtain byte_array where
    bytes: "concat (map format_08b byte_array) = enc @ replicate (8 - length enc mod 8) (CHR ''0'')"
      "length byte_array = length enc div 8 + 1"
    and save: "\<And>codes. save_compressed enc codes =
         Inr \<lparr>bin_file = of_nat (8 - length enc mod 8) # byte_array,
              codes_file = dict_of_items (map (\<lambda>(k, v). (str k, v)) codes)\<rparr>"
    by blast
  have ratio: "calculate_compression_ratio (length pixel_array * 8) (length enc) =
      Inr (of_nat (length enc) / of_nat (length pixel_array * 8) * 100)"
    using assms by (simp add: calculate_compression_ratio_def)
  have run: "encode_image
          (self\<lparr>huffman_codes := updates (tree_codes t []) (huffman_codes self),
                huffman_tree := Some t\<rparr>) pixel_array = Inr enc \<and>
        compress self pixel_array img_size =
          Inr (self\<lparr>huffman_codes := updates (tree_codes t []) (huffman_codes self),
                    huffman_tree := Some t\<rparr>,
               \<lparr>bin_file = of_nat (8 - length enc mod 8) # byte_array,
                codes_file =
                  dict_of_items
                    (map (\<lambda>(k, v). (str k, v))
                       (updates (tree_codes t []) (huffman_codes self)))\<rparr>,
               \<lparr>original_size = img_size,
                compression_ratio = of_nat (length enc) / of_nat (length pixel_array * 8) * 100,
                original_bits = length pixel_array * 8,
                compressed_bits = length enc\<rparr>)" for self img_size
  proof -
    define codes where "codes = updates (tree_codes t []) (huffman_codes self)"
    have gen: "generate_huffman_codes (self\<lparr>huffman_tree := Some t\<rparr>) None [] =
        Inr (self\<lparr>huffman_codes := codes, huffman_tree := Some t\<rparr>)"
      by (simp add: generate_huffman_codes_def generate_codes_from_updates codes_def)
    have look: "map_of codes p = map_of (tree_codes t []) p" if "p \<in> set pixel_array" for p
      using that dist set by (simp add: codes_def map_of_generated)
    have "map_of codes p \<noteq> None" if "p \<in> set pixel_array" for p
      using look [OF that] map_of_tree_codes [of p t "[]"] set that by auto
    then have "list_all (\<lambda>p. map_of codes p \<noteq> None) pixel_array"
      by (simp add: list_all_iff)
    from encode_loop_concat [OF this, of "[]"]
    have "encode_loop codes [] pixel_array =
        Inr (concat (map (\<lambda>p. the (map_of codes p)) pixel_array))"
      by simp
    also have "map (\<lambda>p. the (map_of codes p)) pixel_array =
        map (\<lambda>p. the (map_of (tree_codes t []) p)) pixel_array"
      using look by (intro map_cong) simp_all
    finally have enc: "encode_image (self\<lparr>huffman_codes := codes, huffman_tree := Some t\<rparr>)
        pixel_array = Inr enc"
      by (simp add: encode_image_def enc_def)
    note save = save [of codes]
    have sel: "huffman_codes (self\<lparr>huffman_codes := codes, huffman_tree := Some t\<rparr>) = codes"
      by simp
    have "compress self pixel_array img_size =
         Inr (self\<lparr>huffman_codes := codes, huffman_tree := Some t\<rparr>,
              \<lparr>bin_file = of_nat (8 - length enc mod 8) # byte_array,
               codes_file = dict_of_items (map (\<lambda>(k, v). (str k, v)) codes)\<rparr>,
              \<lparr>original_size = img_size,
               compression_ratio = of_nat (length enc) / of_nat (length pixel_array * 8) * 100,
               original_bits = length pixel_array * 8,
               compressed_bits = length enc\<rparr>)"
      by (simp only: compress_def Let_def build gen enc sel save ratio sum.case)
    with enc show ?thesis
      unfolding codes_def by simp
  qed
  from syms bytes bits run show ?thesis
    unfolding enc_def by blast
qed

lemma bin_digits_zero: "bin_digits k n = replicate k (CHR ''0'') \<Longrightarrow> n mod 2 ^ k = 0"
proof (induction k arbitrary: n)
  case 0
  then show ?case by simp
next
  case (Suc k)
  from Suc.prems have "bin_digits k (n div 2) @ [if odd n then CHR ''1'' else CHR ''0''] =
      replicate k (CHR ''0'') @ [CHR ''0'']"
    by (simp add: replicate_append_same)
  then have "bin_digits k (n div 2) = replicate k (CHR ''0'')" "even n"
    by (auto split: if_splits)
  with Suc.IH [of "n div 2"] have "(n div 2) mod 2 ^ k = 0" "even n"
    by simp_all
  then show ?case
    by (metis dvd_imp_mod_0 dvd_mult_div_cancel mod_0_imp_dvd mult_dvd_mono power_Suc dvd_refl)
qed

lemma format_08b_zero: "format_08b b = replicate 8 (CHR ''0'') \<Longrightarrow> b = 0"
proof -
  assume "format_08b b = replicate 8 (CHR ''0'')"
  then have "unat b mod 2 ^ 8 = 0"
    unfolding format_08b_def by (rule bin_digits_zero)
  moreover have "unat b < 2 ^ 8"
    using unsigned_less [of b, where 'a = nat] by simp
  ultimately show ?thesis
    by (simp add: unat_eq_0)
qed

lemma compress_Inr_nonempty:
  "compress self pixel_array img_size = Inr res \<Longrightarrow> pixel_array \<noteq> []"
  by (auto simp: compress_def build_huffman_tree_Nil)

section \<open>The keys of the code table file\<close>

lemma of_char_digit_char: "d < 10 \<Longrightarrow> (of_char (digit_char d) :: nat) = 48 + d"
  by (simp add: digit_char_def)

lemma is_digit_digit_char: "d < 10 \<Longrightarrow> is_digit (digit_char d)"
  by (simp add: is_digit_def of_char_digit_char)

lemma str_digits: "str n \<noteq> [] \<and> list_all is_digit (str n) \<and>
  foldl (\<lambda>n c. 10 * n + (of_char c - 48)) 0 (str n) = n"
proof (induction n rule: str.induct)
  case (1 n)
  show ?case
  proof (cases "n < 10")
    case True
    then show ?thesis
      by (subst (1 2 3) str.simps) (simp add: is_digit_digit_char of_char_digit_char)
  next
    case False
    have "n mod 10 < 10"
      by simp
    with False "1.IH" show ?thesis
      by (subst (1 2 3) str.simps)
         (simp add: is_digit_digit_char of_char_digit_char del: mod_less_divisor)
  qed
qed

lemma int_base10_str: "int_base10 (str n) = Inr n"
  using str_digits [of n] by (simp add: int_base10_def)

lemma inj_str: "str a = str b \<Longrightarrow> a = b"
  by (metis int_base10_str sum.inject(2))

lemma int_keys_str: "int_keys (map (\<lambda>(k, v). (str k, v)) codes) = Inr codes"
  by (induction codes) (auto simp: int_base10_str)

lemma codes_file_round_trip:
  assumes "distinct (map fst codes)"
  shows "int_keys (dict_of_items (map (\<lambda>(k, v). (str k, v)) codes)) = Inr codes"
proof -
  have keys: "map fst (map (\<lambda>(k, v). (str k, v)) codes) = map str (map fst codes)"
    by (induction codes) auto
  have "distinct (map str (map fst codes))"
    using assms by (auto simp: distinct_map inj_on_def dest: inj_str)
  then have "distinct (map fst (map (\<lambda>(k, v). (str k, v)) codes))"
    by (simp only: keys)
  then have "dict_of_items (map (\<lambda>(k, v). (str k, v)) codes) =
      map (\<lambda>(k, v). (str k, v)) codes"
    by (rule dict_of_items_distinct)
  then show ?thesis
    by (simp add: int_keys_str)
qed


section \<open>Decoding what was encoded\<close>

lemma decode_loop_code:
  assumes "map_of rc c = Some s"
    and "\<And>c'. strict_prefix c' c \<Longrightarrow> c' \<noteq> [] \<Longrightarrow> map_of rc c' = None"
  shows "cur @ rest = c \<Longrightarrow> rest \<noteq> [] \<Longrightarrow>
         decode_loop rc cur acc (rest @ bits) = decode_loop rc [] (acc @ [s]) bits"
proof (induction rest arbitrary: cur)
  case Nil
  then show ?case by simp
next
  case (Cons b rest)
  show ?case
  proof (cases "rest = []")
    case True
    with Cons.prems assms(1) show ?thesis
      by simp
  next
    case False
    have "strict_prefix (cur @ [b]) c"
      using Cons.prems(1) False by (auto simp: strict_prefix_def prefix_def)
    then have "map_of rc (cur @ [b]) = None"
      by (rule assms(2)) simp
    moreover have "decode_loop rc (cur @ [b]) acc (rest @ bits) =
        decode_loop rc [] (acc @ [s]) bits"
      using Cons.prems(1) False by (intro Cons.IH) simp_all
    ultimately show ?thesis
      by simp
  qed
qed

lemma decode_loop_concat:
  assumes "\<And>p. p \<in> set pixels \<Longrightarrow> code p \<noteq> [] \<and> map_of rc (code p) = Some p \<and>
             (\<forall>c'. strict_prefix c' (code p) \<longrightarrow> c' \<noteq> [] \<longrightarrow> map_of rc c' = None)"
  shows "decode_loop rc [] acc (concat (map code pixels)) = ([], acc @ pixels)"
  using assms
proof (induction pixels arbitrary: acc)
  case Nil
  then show ?case by simp
next
  case (Cons p pixels)
  have p: "code p \<noteq> []" "map_of rc (code p) = Some p"
    "\<And>c'. strict_prefix c' (code p) \<Longrightarrow> c' \<noteq> [] \<Longrightarrow> map_of rc c' = None"
    using Cons.prems [of p] by simp_all
  have "decode_loop rc [] acc (code p @ concat (map code pixels)) =
      decode_loop rc [] (acc @ [p]) (concat (map code pixels))"
    using p(2,3) by (rule decode_loop_code) (simp_all add: p(1))
  also have "\<dots> = ([], (acc @ [p]) @ pixels)"
  proof (rule Cons.IH)
    fix q
    assume "q \<in> set pixels"
    then have "q \<in> set (p # pixels)"
      by simp
    then show "code q \<noteq> [] \<and> map_of rc (code q) = Some q \<and>
             (\<forall>c'. strict_prefix c' (code q) \<longrightarrow> c' \<noteq> [] \<longrightarrow> map_of rc c' = None)"
      by (rule Cons.prems)
  qed
  finally show ?case
    by simp
qed

lemma reverse_codes_lookup:
  assumes "distinct (map fst codes)"
    and "\<And>a ca b cb. (a, ca) \<in> set codes \<Longrightarrow> (b, cb) \<in> set codes \<Longrightarrow> a \<noteq> b \<Longrightarrow> \<not> prefix ca cb"
  shows "map_of (dict_of_items (map (\<lambda>(k, v). (v, k)) codes)) c = Some s \<longleftrightarrow> (s, c) \<in> set codes"
proof -
  let ?kvs = "map (\<lambda>(k, v). (v, k)) codes"
  have "inj_on snd (set codes)"
  proof (rule inj_onI)
    fix x y
    assume xy: "x \<in> set codes" "y \<in> set codes" "snd x = snd y"
    obtain a ca b cb where x: "x = (a, ca)" and y: "y = (b, cb)"
      by (cases x, cases y)
    have "a = b"
      using assms(2) [of a ca b cb] xy by (auto simp: x y)
    with xy show "x = y"
      by (simp add: x y)
  qed
  moreover have "distinct codes"
    using assms(1) by (rule distinct_map [THEN iffD1, THEN conjunct1])
  ultimately have "distinct (map snd codes)"
    by (simp add: distinct_map)
  moreover have keys: "map fst ?kvs = map snd codes"
    by (induction codes) auto
  ultimately have d: "distinct (map fst ?kvs)"
    by (simp only: keys)
  then have "dict_of_items ?kvs = ?kvs"
    by (rule dict_of_items_distinct)
  then have "map_of (dict_of_items ?kvs) c = Some s \<longleftrightarrow> (c, s) \<in> set ?kvs"
    using d by simp
  also have "\<dots> \<longleftrightarrow> (s, c) \<in> set codes"
    by auto
  finally show ?thesis .
qed


lemma tree_codes_nonempty:
  "(s, c) \<in> set (tree_codes (Internal f l r) code) \<Longrightarrow> c \<noteq> []"
  by (auto dest!: tree_codes_prefix)

section \<open>The round trip of an image with at least two intensities\<close>

text \<open>
  For every pixel array over \<open>[0,255]\<close> that holds at least two different values, and
  the size of its image, \<^verbatim>\<open>compress\<close> on a fresh instance returns and \<^verbatim>\<open>decode_image\<close> on the
  two written files returns the pixel array.
\<close>

theorem round_trip_two_symbols:
  assumes range: "list_all (\<lambda>p. p < 256) pixel_array"
    and size: "length pixel_array = snd img_size * fst img_size"
    and two: "a \<in> set pixel_array" "b \<in> set pixel_array" "a \<noteq> b"
  shows "\<exists>self' files stats.
     compress init pixel_array img_size = Inr (self', files, stats) \<and>
     decode_image files img_size = Inr pixel_array"
proof -
  have ne: "pixel_array \<noteq> []"
    using two(1) by auto
  from compress_nonempty [OF ne]
  obtain t byte_array enc where
    syms: "mset (symbols t) = mset (map fst (calculate_frequencies pixel_array))"
    and enc: "enc = concat (map (\<lambda>p. the (map_of (tree_codes t []) p)) pixel_array)"
    and bytes: "concat (map format_08b byte_array) =
       enc @ replicate (8 - length enc mod 8) (CHR ''0'')"
    and both: "\<And>self img_size.
        encode_image
          (self\<lparr>huffman_codes := updates (tree_codes t []) (huffman_codes self),
                huffman_tree := Some t\<rparr>) pixel_array = Inr enc \<and>
        compress self pixel_array img_size =
          Inr (self\<lparr>huffman_codes := updates (tree_codes t []) (huffman_codes self),
                    huffman_tree := Some t\<rparr>,
               \<lparr>bin_file = of_nat (8 - length enc mod 8) # byte_array,
                codes_file =
                  dict_of_items
                    (map (\<lambda>(k, v). (str k, v))
                       (updates (tree_codes t []) (huffman_codes self)))\<rparr>,
               \<lparr>original_size = img_size,
                compression_ratio =
                  of_nat (length enc) / of_nat (length pixel_array * 8) * 100,
                original_bits = length pixel_array * 8,
                compressed_bits = length enc\<rparr>)"
    by blast
  let ?codes = "tree_codes t []"
  let ?files = "\<lparr>bin_file = of_nat (8 - length enc mod 8) # byte_array,
                codes_file = dict_of_items (map (\<lambda>(k, v). (str k, v)) ?codes)\<rparr>"
  have dist: "distinct (symbols t)"
    using syms distinct_calculate_frequencies [of pixel_array] by (metis mset_eq_imp_distinct_iff)
  have set: "set (symbols t) = set pixel_array"
    using syms keys_calculate_frequencies [of pixel_array] by (metis mset_eq_setD)
  have d: "distinct (map fst ?codes)"
    using dist by simp
  have fresh: "updates ?codes (huffman_codes init) = ?codes"
    using updates_fresh [OF d, of "[]"] by (simp add: init_def)
  have run: "compress init pixel_array img_size =
      Inr (init\<lparr>huffman_codes := ?codes, huffman_tree := Some t\<rparr>, ?files,
           \<lparr>original_size = img_size,
            compression_ratio = of_nat (length enc) / of_nat (length pixel_array * 8) * 100,
            original_bits = length pixel_array * 8,
            compressed_bits = length enc\<rparr>)"
    using both [of init img_size] by (simp only: fresh)
  obtain f l r where t: "t = Internal f l r"
  proof (cases t)
    case (Leaf v k)
    with set have "set pixel_array = {v}"
      by simp
    with two have False
      by simp
    then show ?thesis ..
  next
    case (Internal f l r)
    then show ?thesis
      by (rule that)
  qed
  have free: "\<not> prefix ca cb"
    if "(x, ca) \<in> set ?codes" "(y, cb) \<in> set ?codes" "x \<noteq> y" for x ca y cb
    using tree_codes_prefix_free [OF dist that] .
  let ?rc = "dict_of_items (map (\<lambda>(k, v). (v, k)) ?codes)"
  let ?code = "\<lambda>p. the (map_of ?codes p)"
  have rev: "map_of ?rc c = Some s \<longleftrightarrow> (s, c) \<in> set ?codes" for c s
    by (rule reverse_codes_lookup [OF d]) (rule free)
  have code: "?code p \<noteq> [] \<and> map_of ?rc (?code p) = Some p \<and>
      (\<forall>c'. strict_prefix c' (?code p) \<longrightarrow> c' \<noteq> [] \<longrightarrow> map_of ?rc c' = None)"
    if "p \<in> set pixel_array" for p
  proof -
    from that set map_of_tree_codes [of p t "[]"] obtain c where
      c: "map_of ?codes p = Some c" "(p, c) \<in> set ?codes"
      by blast
    have "c \<noteq> []"
      using c(2) unfolding t by (rule tree_codes_nonempty)
    moreover have "map_of ?rc c = Some p"
      using c(2) rev by blast
    moreover have "map_of ?rc c' = None" if "strict_prefix c' c" for c'
    proof (rule ccontr)
      assume "map_of ?rc c' \<noteq> None"
      then obtain q where "map_of ?rc c' = Some q"
        by blast
      then have q: "(q, c') \<in> set ?codes"
        using rev by blast
      show False
      proof (cases "q = p")
        case True
        with q c(1) d have "c' = c"
          by simp
        with that show False
          by simp
      next
        case False
        from free [OF q c(2) False] that show False
          by (simp add: strict_prefix_def)
      qed
    qed
    ultimately show ?thesis
      by (simp add: c(1))
  qed
  have "decode_loop ?rc [] [] (concat (map ?code pixel_array)) = ([], [] @ pixel_array)"
    by (rule decode_loop_concat) (rule code)
  then have loop: "decode_loop ?rc [] [] enc = ([], pixel_array)"
    by (simp add: enc)
  have read: "read_binary_data (of_nat (8 - length enc mod 8) # byte_array) = enc"
    using padded_length_range [of "length enc"] bytes
    by (intro read_binary_data_padded) simp_all
  have keys: "int_keys (dict_of_items (map (\<lambda>(k, v). (str k, v)) ?codes)) = Inr ?codes"
    using d by (rule codes_file_round_trip)
  have same: "dict_of_items ?codes = ?codes"
    using d by (rule dict_of_items_distinct)
  have "decode_image ?files img_size = Inr pixel_array"
    using range size by (simp add: decode_image_def keys same read loop del: of_nat_diff)
  with run show ?thesis
    by blast
qed

section \<open>An image of one intensity\<close>

lemma calculate_frequencies_flat:
  "calculate_frequencies (replicate (Suc n) v) = [(v, Suc n)]"
proof -
  have "foldl (\<lambda>frequencies pixel.
              AList.update pixel
                ((case map_of frequencies pixel of None \<Rightarrow> 0 | Some c \<Rightarrow> c) + 1) frequencies)
          [(v, k)] (replicate n v) = [(v, k + n)]" for k n
    by (induction n arbitrary: k) simp_all
  from this [of 1 n] show ?thesis
    by (simp add: calculate_frequencies_def)
qed

lemma heappush_Nil: "heappush [] x = [x]"
  by (simp add: heappush_def siftdown_def siftdown_loop.simps)

lemma build_huffman_tree_single:
  "build_huffman_tree self [(v, k)] = Inr (self\<lparr>huffman_tree := Some (Leaf v k)\<rparr>)"
  by (simp add: build_huffman_tree_def push_leaves_def heappush_Nil merge_loop.simps)

lemma encode_loop_flat:
  "map_of codes v = Some [] \<Longrightarrow> encode_loop codes acc (replicate n v) = Inr acc"
  by (induction n) simp_all

lemma save_compressed_Nil:
  "save_compressed [] codes =
     Inr \<lparr>bin_file = [8, 0], codes_file = dict_of_items (map (\<lambda>(k, v). (str k, v)) codes)\<rparr>"
proof -
  have "pack_loop (replicate 8 (CHR ''0'')) 0 [] = Inr [0]"
    by code_simp
  then show ?thesis
    by (simp add: save_compressed_def)
qed

lemma read_binary_data_zero_bits: "read_binary_data [8, 0] = []"
  by code_simp

text \<open>
  For every image of one intensity \<open>v\<close> and \<open>n > 0\<close> pixels, \<^verbatim>\<open>compress\<close> on a fresh
  instance returns with the empty code for \<open>v\<close> and zero compressed bits, and
  \<^verbatim>\<open>decode_image\<close> on the two written files raises.
\<close>

theorem flat_image_no_round_trip:
  assumes "0 < n" and "snd img_size * fst img_size = n"
  shows "\<exists>files stats.
     compress init (replicate n v) img_size =
       Inr (\<lparr>huffman_codes = [(v, [])], huffman_tree = Some (Leaf v n)\<rparr>, files, stats) \<and>
     compressed_bits stats = 0 \<and>
     decode_image files img_size = Inl ValueError"
proof -
  from assms(1) obtain m where n: "n = Suc m"
    by (cases n) auto
  let ?self = "\<lparr>huffman_codes = [(v, [])], huffman_tree = Some (Leaf v n)\<rparr>"
  let ?files = "\<lparr>bin_file = [8, 0], codes_file = [(str v, [])]\<rparr>"
  have gen: "generate_huffman_codes (init\<lparr>huffman_tree := Some (Leaf v n)\<rparr>) None [] = Inr ?self"
    by (simp add: generate_huffman_codes_def init_def)
  have enc: "encode_image ?self (replicate n v) = Inr []"
    by (simp add: encode_image_def encode_loop_flat)
  have save: "save_compressed [] [(v, [])] = Inr ?files"
    by (simp add: save_compressed_Nil dict_of_items_def)
  have "calculate_frequencies (replicate n v) = [(v, n)]"
    unfolding n by (rule calculate_frequencies_flat)
  then have build: "build_huffman_tree init (calculate_frequencies (replicate n v)) =
      Inr (init\<lparr>huffman_tree := Some (Leaf v n)\<rparr>)"
    by (simp only: build_huffman_tree_single)
  have sel: "huffman_codes ?self = [(v, [])]"
    by simp
  have ratio: "calculate_compression_ratio (length (replicate n v) * 8) (length ([] :: string)) =
      Inr 0"
    using assms(1) by (simp add: calculate_compression_ratio_def)
  have run: "compress init (replicate n v) img_size =
      Inr (?self, ?files,
           \<lparr>original_size = img_size, compression_ratio = 0,
            original_bits = length (replicate n v) * 8, compressed_bits = length ([] :: string)\<rparr>)"
    by (simp only: compress_def Let_def build gen enc sel save ratio sum.case)
  have "decode_image ?files img_size = Inl ValueError"
    using assms by (simp add: decode_image_def int_base10_str dict_of_items_def
        read_binary_data_zero_bits)
  with run show ?thesis
    by simp
qed

section \<open>Claims\<close>

text \<open>
  C1: for every sample sequence over \<open>[0,255]\<close> of length at least 1, decompressing the
  output of \<^verbatim>\<open>compress\<close> reconstructs the sequence. The code does not do this for a sequence
  of one distinct symbol: the image of the single pixel 200 is written with the empty code
  for 200 and zero data bits, and \<^verbatim>\<open>decode_image\<close> on the written files raises instead of
  returning \<open>[200]\<close>. Every image of one intensity fails in this way
  (\<open>flat_image_no_round_trip\<close>), and every image of two or more intensities is
  reconstructed (\<open>round_trip_two_symbols\<close>).
\<close>

theorem single_pixel_no_round_trip:
  "compress init [200] (1, 1) =
     Inr (\<lparr>huffman_codes = [(200, [])], huffman_tree = Some (Leaf 200 1)\<rparr>,
          \<lparr>bin_file = [8, 0], codes_file = [(''200'', [])]\<rparr>,
          \<lparr>original_size = (1, 1), compression_ratio = 0, original_bits = 8,
           compressed_bits = 0\<rparr>) \<and>
   decode_image \<lparr>bin_file = [8, 0], codes_file = [(''200'', [])]\<rparr> (1, 1) = Inl ValueError"
  by code_simp

text \<open>
  C2: an input with exactly one distinct symbol, such as \<open>[7, 7, 7, 7]\<close>, is to receive a
  non-empty code and to round-trip. The code does not do this: the tree is the single
  leaf, \<^verbatim>\<open>generate_huffman_codes\<close> stores the start value \<^verbatim>\<open>""\<close> of its \<^verbatim>\<open>code\<close> argument for it,
  the four pixels are encoded in zero bits, and \<^verbatim>\<open>decode_image\<close> on the written files decodes
  no pixel, so that \<^verbatim>\<open>reshape\<close> raises.
\<close>

theorem single_symbol_empty_code:
  "compress init [7, 7, 7, 7] (2, 2) =
     Inr (\<lparr>huffman_codes = [(7, [])], huffman_tree = Some (Leaf 7 4)\<rparr>,
          \<lparr>bin_file = [8, 0], codes_file = [(''7'', [])]\<rparr>,
          \<lparr>original_size = (2, 2), compression_ratio = 0, original_bits = 32,
           compressed_bits = 0\<rparr>) \<and>
   decode_image \<lparr>bin_file = [8, 0], codes_file = [(''7'', [])]\<rparr> (2, 2) = Inl ValueError"
  by code_simp

text \<open>
  C3: for every non-empty frequency table (a dict, so its keys are distinct),
  \<^verbatim>\<open>build_huffman_tree\<close> and \<^verbatim>\<open>generate_huffman_codes\<close> return, and in the code table
  \<^verbatim>\<open>self.huffman_codes\<close> every symbol of the frequency table has exactly one code (the keys
  of the code table are distinct and include every symbol of the frequency table), and
  the code of a symbol of the frequency table is never a prefix of the code of a different
  symbol of the frequency table. On a fresh instance (empty code table before the call)
  the symbols of the frequency table are all the keys there are.
\<close>

theorem codebook_prefix_free:
  assumes "frequencies \<noteq> []" and "distinct (map fst frequencies)"
    and "distinct (map fst (huffman_codes self))"
  shows "\<exists>self1 self2.
     build_huffman_tree self frequencies = Inr self1 \<and>
     generate_huffman_codes self1 None [] = Inr self2 \<and>
     distinct (map fst (huffman_codes self2)) \<and>
     fst ` set frequencies \<subseteq> fst ` set (huffman_codes self2) \<and>
     (huffman_codes self = [] \<longrightarrow>
        fst ` set (huffman_codes self2) = fst ` set frequencies) \<and>
     (\<forall>a ca b cb.
        a \<in> fst ` set frequencies \<longrightarrow> b \<in> fst ` set frequencies \<longrightarrow>
        (a, ca) \<in> set (huffman_codes self2) \<longrightarrow> (b, cb) \<in> set (huffman_codes self2) \<longrightarrow>
        a \<noteq> b \<longrightarrow> \<not> prefix ca cb)"
proof -
  from build_huffman_tree_nonempty [OF assms(1)]
  obtain t where syms: "mset (symbols t) = mset (map fst frequencies)"
    and build: "\<And>self. build_huffman_tree self frequencies = Inr (self\<lparr>huffman_tree := Some t\<rparr>)"
    by blast
  define codes where "codes = updates (tree_codes t []) (huffman_codes self)"
  have gen: "generate_huffman_codes (self\<lparr>huffman_tree := Some t\<rparr>) None [] =
      Inr (self\<lparr>huffman_codes := codes, huffman_tree := Some t\<rparr>)"
    by (simp add: generate_huffman_codes_def generate_codes_from_updates codes_def)
  have dist: "distinct (symbols t)"
    using syms assms(2) by (metis mset_eq_imp_distinct_iff)
  have set: "set (symbols t) = fst ` set frequencies"
    using syms by (metis mset_eq_setD set_map)
  have tree_keys: "fst ` set (tree_codes t []) = fst ` set frequencies"
    using set keys_tree_codes [of t "[]"] by (metis set_map)
  have d: "distinct (map fst codes)"
    unfolding codes_def using assms(3) by (rule distinct_updates)
  have keys: "fst ` set codes = fst ` set (huffman_codes self) \<union> fst ` set frequencies"
    by (simp add: codes_def keys_updates tree_keys)
  have in_tree: "(a, ca) \<in> set (tree_codes t [])"
    if "a \<in> fst ` set frequencies" "(a, ca) \<in> set codes" for a ca
  proof -
    have "map_of codes a = Some ca"
      using d that(2) by simp
    moreover have "map_of codes a = map_of (tree_codes t []) a"
      unfolding codes_def using dist that(1) set by (intro map_of_generated) simp_all
    ultimately show ?thesis
      by (auto dest: map_of_SomeD)
  qed
  have free: "\<not> prefix ca cb"
    if "a \<in> fst ` set frequencies" "b \<in> fst ` set frequencies"
      "(a, ca) \<in> set codes" "(b, cb) \<in> set codes" "a \<noteq> b" for a ca b cb
    using tree_codes_prefix_free [OF dist in_tree [OF that(1,3)] in_tree [OF that(2,4)] that(5)] .
  show ?thesis
    using build [of self] gen d keys free
    by (intro exI [of _ "self\<lparr>huffman_tree := Some t\<rparr>"]
        exI [of _ "self\<lparr>huffman_codes := codes, huffman_tree := Some t\<rparr>"]) auto
qed

theorem codebook_prefix_free_witness:
  "[(1, 1), (2, 1), (3, 1 :: nat)] \<noteq> [] \<and>
   distinct (map fst [(1 :: nat, 1 :: nat), (2, 1), (3, 1)]) \<and>
   distinct (map fst (huffman_codes init)) \<and>
   (\<exists>self1 self2.
     build_huffman_tree init [(1, 1), (2, 1), (3, 1)] = Inr self1 \<and>
     generate_huffman_codes self1 None [] = Inr self2 \<and>
     distinct (map fst (huffman_codes self2)) \<and>
     fst ` set [(1 :: nat, 1 :: nat), (2, 1), (3, 1)] \<subseteq> fst ` set (huffman_codes self2) \<and>
     (huffman_codes init = [] \<longrightarrow>
        fst ` set (huffman_codes self2) = fst ` set [(1 :: nat, 1 :: nat), (2, 1), (3, 1)]) \<and>
     (\<forall>a ca b cb.
        a \<in> fst ` set [(1 :: nat, 1 :: nat), (2, 1), (3, 1)] \<longrightarrow>
        b \<in> fst ` set [(1 :: nat, 1 :: nat), (2, 1), (3, 1)] \<longrightarrow>
        (a, ca) \<in> set (huffman_codes self2) \<longrightarrow> (b, cb) \<in> set (huffman_codes self2) \<longrightarrow>
        a \<noteq> b \<longrightarrow> \<not> prefix ca cb)) \<and>
   huffman_codes init = []"
proof -
  have h: "[(1, 1), (2, 1), (3, 1 :: nat)] \<noteq> []"
    "distinct (map fst [(1 :: nat, 1 :: nat), (2, 1), (3, 1)])"
    "distinct (map fst (huffman_codes init))"
    and fresh: "huffman_codes init = []"
    by (simp_all add: init_def)
  from h codebook_prefix_free [OF h] fresh show ?thesis
    by (intro conjI)
qed

text \<open>
  C4: for a bit sequence whose length is already a multiple of 8, \<^verbatim>\<open>save_compressed\<close>
  computes the padding length \<open>8 - (len % 8) = 8\<close>, writes it as the first byte, and
  appends one full zero byte after the bytes of the data; reading the file back with that
  padding length (lines 93-100 of \<^verbatim>\<open>decode_image\<close>) drops exactly the padding and returns
  the bit sequence itself.
\<close>

theorem aligned_padding:
  assumes "list_all is_bit encoded_data" and "length encoded_data mod 8 = 0"
  shows "\<exists>byte_array.
     save_compressed encoded_data codes =
       Inr \<lparr>bin_file = 8 # byte_array @ [0],
            codes_file = dict_of_items (map (\<lambda>(k, v). (str k, v)) codes)\<rparr> \<and>
     8 - length encoded_data mod 8 = 8 \<and>
     length byte_array = length encoded_data div 8 \<and>
     concat (map format_08b byte_array) = encoded_data \<and>
     read_binary_data (8 # byte_array @ [0]) = encoded_data"
proof -
  from save_compressed_bits [OF assms(1)] assms(2) obtain bs where
    bits: "concat (map format_08b bs) = encoded_data @ replicate 8 (CHR ''0'')"
    and len: "length bs = length encoded_data div 8 + 1"
    and save: "save_compressed encoded_data codes =
       Inr \<lparr>bin_file = 8 # bs, codes_file = dict_of_items (map (\<lambda>(k, v). (str k, v)) codes)\<rparr>"
    by auto
  from len obtain byte_array b where bs: "bs = byte_array @ [b]"
    by (cases bs rule: rev_cases) auto
  from bits have "concat (map format_08b byte_array) @ format_08b b =
      encoded_data @ replicate 8 (CHR ''0'')"
    by (simp add: bs)
  then have data: "concat (map format_08b byte_array) = encoded_data"
    and last: "format_08b b = replicate 8 (CHR ''0'')"
    by (simp_all add: append_eq_append_conv)
  from last have b: "b = 0"
    by (rule format_08b_zero)
  have "read_binary_data (of_nat 8 # bs) = encoded_data"
    using bits by (intro read_binary_data_padded) simp_all
  then have "read_binary_data (8 # byte_array @ [0]) = encoded_data"
    by (simp add: bs b)
  with save data len assms(2) show ?thesis
    by (intro exI [of _ byte_array]) (simp add: bs b)
qed

theorem aligned_padding_witness:
  "list_all is_bit ''0101010111110000'' \<and> length ''0101010111110000'' mod 8 = 0 \<and>
   (\<exists>byte_array.
     save_compressed ''0101010111110000'' [] =
       Inr \<lparr>bin_file = 8 # byte_array @ [0],
            codes_file = dict_of_items (map (\<lambda>(k, v). (str k, v)) [])\<rparr> \<and>
     8 - length ''0101010111110000'' mod 8 = 8 \<and>
     length byte_array = length ''0101010111110000'' div 8 \<and>
     concat (map format_08b byte_array) = ''0101010111110000'' \<and>
     read_binary_data (8 # byte_array @ [0]) = ''0101010111110000'')"
proof -
  have h: "list_all is_bit ''0101010111110000''" "length ''0101010111110000'' mod 8 = 0"
    by (simp_all add: is_bit_def)
  from aligned_padding [OF h, of "[]"] h show ?thesis
    by blast
qed



text \<open>
  C6: for an empty sample sequence (zero symbols), compression fails, since a Huffman
  tree cannot be built from zero symbols. The frequency table is empty, no leaf is pushed,
  and \<^verbatim>\<open>heap[0]\<close> in \<^verbatim>\<open>build_huffman_tree\<close> raises: the event that the specification calls
  EmptyInputError is Python's IndexError. It is raised for every instance and every
  image size, before anything is written.
\<close>

theorem compress_empty_input:
  "build_huffman_tree self (calculate_frequencies []) = Inl IndexError \<and>
   compress self [] img_size = Inl IndexError"
  by (simp add: compress_def build_huffman_tree_Nil)

text \<open>
  C7: two runs of \<^verbatim>\<open>compress\<close> on identical input produce an identical code table and
  identical packed bytes. The heap breaks ties by position and the dicts keep insertion
  order, so nothing in a run is left to chance. For two runs on the same pixels, on any two
  instances: the binary files, the statistics and the trees are equal, and every symbol of
  the input has the same code in both code tables. The code table files are equal as
  well when the two instances held the same code table before, as two fresh ones do, and
  when the second run is made on the instance that the first run has left.
\<close>

theorem compress_deterministic:
  assumes "compress self_a pixel_array img_size = Inr (self_a', files_a, stats_a)"
    and "compress self_b pixel_array img_size = Inr (self_b', files_b, stats_b)"
  shows "bin_file files_a = bin_file files_b \<and> stats_a = stats_b \<and>
     huffman_tree self_a' = huffman_tree self_b' \<and>
     (\<forall>p \<in> set pixel_array.
        map_of (huffman_codes self_a') p = map_of (huffman_codes self_b') p) \<and>
     (huffman_codes self_b = huffman_codes self_a \<or> self_b = self_a' \<longrightarrow>
        codes_file files_a = codes_file files_b \<and>
        huffman_codes self_a' = huffman_codes self_b')"
proof -
  have "pixel_array \<noteq> []"
    using assms(1) by (rule compress_Inr_nonempty)
  from compress_nonempty [OF this]
  obtain t byte_array encoded_data where
    syms: "mset (symbols t) = mset (map fst (calculate_frequencies pixel_array))"
    and both: "\<And>self img_size.
        encode_image
          (self\<lparr>huffman_codes := updates (tree_codes t []) (huffman_codes self),
                huffman_tree := Some t\<rparr>) pixel_array = Inr encoded_data \<and>
        compress self pixel_array img_size =
          Inr (self\<lparr>huffman_codes := updates (tree_codes t []) (huffman_codes self),
                    huffman_tree := Some t\<rparr>,
               \<lparr>bin_file = of_nat (8 - length encoded_data mod 8) # byte_array,
                codes_file =
                  dict_of_items
                    (map (\<lambda>(k, v). (str k, v))
                       (updates (tree_codes t []) (huffman_codes self)))\<rparr>,
               \<lparr>original_size = img_size,
                compression_ratio =
                  of_nat (length encoded_data) / of_nat (length pixel_array * 8) * 100,
                original_bits = length pixel_array * 8,
                compressed_bits = length encoded_data\<rparr>)"
    by blast
  note run = both [THEN conjunct2]
  have dist: "distinct (symbols t)"
    using syms distinct_calculate_frequencies [of pixel_array] by (metis mset_eq_imp_distinct_iff)
  have set: "set (symbols t) = set pixel_array"
    using syms keys_calculate_frequencies [of pixel_array] by (metis mset_eq_setD)
  let ?codes = "\<lambda>self. updates (tree_codes t []) (huffman_codes self)"
  from assms(1) run [of self_a img_size]
  have a: "self_a' = self_a\<lparr>huffman_codes := ?codes self_a, huffman_tree := Some t\<rparr>"
    "files_a = \<lparr>bin_file = of_nat (8 - length encoded_data mod 8) # byte_array,
                codes_file = dict_of_items (map (\<lambda>(k, v). (str k, v)) (?codes self_a))\<rparr>"
    "stats_a = \<lparr>original_size = img_size,
                compression_ratio =
                  of_nat (length encoded_data) / of_nat (length pixel_array * 8) * 100,
                original_bits = length pixel_array * 8,
                compressed_bits = length encoded_data\<rparr>"
    by simp_all
  from assms(2) run [of self_b img_size]
  have b: "self_b' = self_b\<lparr>huffman_codes := ?codes self_b, huffman_tree := Some t\<rparr>"
    "files_b = \<lparr>bin_file = of_nat (8 - length encoded_data mod 8) # byte_array,
                codes_file = dict_of_items (map (\<lambda>(k, v). (str k, v)) (?codes self_b))\<rparr>"
    "stats_b = \<lparr>original_size = img_size,
                compression_ratio =
                  of_nat (length encoded_data) / of_nat (length pixel_array * 8) * 100,
                original_bits = length pixel_array * 8,
                compressed_bits = length encoded_data\<rparr>"
    by simp_all
  have look: "map_of (?codes self_a) p = map_of (?codes self_b) p" if "p \<in> set pixel_array" for p
    using that dist set by (simp add: map_of_generated)
  have idem: "?codes self_a' = ?codes self_a"
    using dist by (simp add: a(1) updates_idem)
  have same: "?codes self_b = ?codes self_a"
    if "huffman_codes self_b = huffman_codes self_a \<or> self_b = self_a'"
    using that idem by auto
  have "bin_file files_a = bin_file files_b" "stats_a = stats_b"
    "huffman_tree self_a' = huffman_tree self_b'"
    by (simp_all add: a b)
  moreover have "\<forall>p \<in> set pixel_array.
      map_of (huffman_codes self_a') p = map_of (huffman_codes self_b') p"
    using look by (simp add: a(1) b(1))
  moreover have "codes_file files_a = codes_file files_b \<and>
      huffman_codes self_a' = huffman_codes self_b'"
    if "huffman_codes self_b = huffman_codes self_a \<or> self_b = self_a'"
  proof -
    have "?codes self_b = ?codes self_a"
      using that by (rule same)
    then show ?thesis
      by (simp add: a(1,2) b(1,2))
  qed
  ultimately show ?thesis
    by blast
qed

theorem compress_deterministic_witness:
  "compress init [1, 2, 3] (3, 1) =
     Inr (\<lparr>huffman_codes = [(3, ''0''), (1, ''10''), (2, ''11'')],
          huffman_tree = Some (Internal 3 (Leaf 3 1) (Internal 2 (Leaf 1 1) (Leaf 2 1)))\<rparr>,
          \<lparr>bin_file = [3, 176],
           codes_file = [(''3'', ''0''), (''1'', ''10''), (''2'', ''11'')]\<rparr>,
          \<lparr>original_size = (3, 1), compression_ratio = 125 / 6, original_bits = 24,
           compressed_bits = 5\<rparr>) \<and>
   compress \<lparr>huffman_codes = [(3, ''0''), (1, ''10''), (2, ''11'')],
          huffman_tree = Some (Internal 3 (Leaf 3 1) (Internal 2 (Leaf 1 1) (Leaf 2 1)))\<rparr>
       [1, 2, 3] (3, 1) =
     Inr (\<lparr>huffman_codes = [(3, ''0''), (1, ''10''), (2, ''11'')],
          huffman_tree = Some (Internal 3 (Leaf 3 1) (Internal 2 (Leaf 1 1) (Leaf 2 1)))\<rparr>,
          \<lparr>bin_file = [3, 176],
           codes_file = [(''3'', ''0''), (''1'', ''10''), (''2'', ''11'')]\<rparr>,
          \<lparr>original_size = (3, 1), compression_ratio = 125 / 6, original_bits = 24,
           compressed_bits = 5\<rparr>)"
proof -
  let ?a' = "\<lparr>huffman_codes = [(3, ''0''), (1, ''10''), (2, ''11'')],
          huffman_tree = Some (Internal 3 (Leaf 3 1) (Internal 2 (Leaf 1 1) (Leaf 2 1)))\<rparr>"
  let ?files = "\<lparr>bin_file = [3, 176],
           codes_file = [(''3'', ''0''), (''1'', ''10''), (''2'', ''11'')]\<rparr>"
  let ?stats = "\<lparr>original_size = (3, 1), compression_ratio = 125 / 6, original_bits = 24,
           compressed_bits = 5\<rparr>"
  have a: "compress init [1, 2, 3] (3, 1) = Inr (?a', ?files, ?stats)"
    by code_simp
  have b: "compress ?a' [1, 2, 3] (3, 1) = Inr (?a', ?files, ?stats)"
    by code_simp
  from compress_deterministic [OF a b] a b show ?thesis
    by simp
qed

text \<open>
  C8: each call of \<^verbatim>\<open>compress\<close> is purely functional over its inputs, whatever the
  instance has compressed before. The code does not do this: \<^verbatim>\<open>self.huffman_codes\<close> is set
  to the empty dict in \<^verbatim>\<open>__init__\<close> only, and \<^verbatim>\<open>generate_huffman_codes\<close> assigns into it. An
  instance that has compressed the pixels \<open>[4, 5]\<close> and then compresses \<open>[6, 4]\<close> writes a
  code table that still holds the symbol 5 with the code \<^verbatim>\<open>"1"\<close>, which is now the code of 4;
  a fresh instance writes the table of the symbols 6 and 4 alone. The stale table decodes
  the written bytes to \<open>[6, 5]\<close>.
\<close>

theorem reused_instance_stale_codes:
  "compress init [4, 5] (2, 1) =
     Inr (\<lparr>huffman_codes = [(4, ''0''), (5, ''1'')],
          huffman_tree = Some (Internal 2 (Leaf 4 1) (Leaf 5 1))\<rparr>,
          \<lparr>bin_file = [6, 64], codes_file = [(''4'', ''0''), (''5'', ''1'')]\<rparr>,
          \<lparr>original_size = (2, 1), compression_ratio = 25 / 2, original_bits = 16,
           compressed_bits = 2\<rparr>) \<and>
   compress \<lparr>huffman_codes = [(4, ''0''), (5, ''1'')],
             huffman_tree = Some (Internal 2 (Leaf 4 1) (Leaf 5 1))\<rparr> [6, 4] (2, 1) =
     Inr (\<lparr>huffman_codes = [(4, ''1''), (5, ''1''), (6, ''0'')],
          huffman_tree = Some (Internal 2 (Leaf 6 1) (Leaf 4 1))\<rparr>,
          \<lparr>bin_file = [6, 64],
           codes_file = [(''4'', ''1''), (''5'', ''1''), (''6'', ''0'')]\<rparr>,
          \<lparr>original_size = (2, 1), compression_ratio = 25 / 2, original_bits = 16,
           compressed_bits = 2\<rparr>) \<and>
   compress init [6, 4] (2, 1) =
     Inr (\<lparr>huffman_codes = [(6, ''0''), (4, ''1'')],
          huffman_tree = Some (Internal 2 (Leaf 6 1) (Leaf 4 1))\<rparr>,
          \<lparr>bin_file = [6, 64], codes_file = [(''6'', ''0''), (''4'', ''1'')]\<rparr>,
          \<lparr>original_size = (2, 1), compression_ratio = 25 / 2, original_bits = 16,
           compressed_bits = 2\<rparr>) \<and>
   decode_image
     \<lparr>bin_file = [6, 64], codes_file = [(''4'', ''1''), (''5'', ''1''), (''6'', ''0'')]\<rparr>
     (2, 1) = Inr [6, 5] \<and>
   decode_image \<lparr>bin_file = [6, 64], codes_file = [(''6'', ''0''), (''4'', ''1'')]\<rparr> (2, 1) =
     Inr [6, 4]"
  by code_simp



text \<open>
  C10: for every run of \<^verbatim>\<open>compress\<close> on a non-empty input, the padding length written as
  the first byte of the binary file is in \<open>[1,8]\<close>, never 0, and the file holds exactly
  \<open>floor(encodedBitLength / 8) + 1\<close> data bytes after it, where the encoded bit sequence
  is the one that \<^verbatim>\<open>encode_image\<close> yields with the codes of the run.
\<close>

theorem padding_byte_range:
  assumes "pixel_array \<noteq> []"
  shows "\<exists>self' padding byte_data cf stats encoded_data.
     compress self pixel_array img_size =
       Inr (self', \<lparr>bin_file = padding # byte_data, codes_file = cf\<rparr>, stats) \<and>
     encode_image self' pixel_array = Inr encoded_data \<and>
     unat padding = 8 - length encoded_data mod 8 \<and>
     1 \<le> unat padding \<and> unat padding \<le> 8 \<and>
     length byte_data = length encoded_data div 8 + 1"
proof -
  from compress_nonempty [OF assms]
  obtain t byte_array encoded_data where
    bytes: "length byte_array = length encoded_data div 8 + 1"
    and all: "\<And>self img_size.
        encode_image
          (self\<lparr>huffman_codes := updates (tree_codes t []) (huffman_codes self),
                huffman_tree := Some t\<rparr>) pixel_array = Inr encoded_data \<and>
        compress self pixel_array img_size =
          Inr (self\<lparr>huffman_codes := updates (tree_codes t []) (huffman_codes self),
                    huffman_tree := Some t\<rparr>,
               \<lparr>bin_file = of_nat (8 - length encoded_data mod 8) # byte_array,
                codes_file =
                  dict_of_items
                    (map (\<lambda>(k, v). (str k, v))
                       (updates (tree_codes t []) (huffman_codes self)))\<rparr>,
               \<lparr>original_size = img_size,
                compression_ratio =
                  of_nat (length encoded_data) / of_nat (length pixel_array * 8) * 100,
                original_bits = length pixel_array * 8,
                compressed_bits = length encoded_data\<rparr>)"
    by blast
  note enc = all [of self img_size, THEN conjunct1]
  note run = all [of self img_size, THEN conjunct2]
  have "unat (of_nat p :: byte) = p" if "p \<le> 8" for p
    using that by (simp add: unat_of_nat)
  then have "unat (of_nat (8 - length encoded_data mod 8) :: byte) = 8 - length encoded_data mod 8"
    by (simp del: of_nat_diff)
  moreover have "1 \<le> 8 - length encoded_data mod 8" "8 - length encoded_data mod 8 \<le> 8"
    using padded_length_range [of "length encoded_data"] by simp_all
  ultimately show ?thesis
    using run enc bytes by (intro exI conjI) (assumption | simp)+
qed

theorem padding_byte_range_witness:
  "[1, 2, 3 :: nat] \<noteq> [] \<and>
   (\<exists>self' padding byte_data cf stats encoded_data.
     compress init [1, 2, 3] (3, 1) =
       Inr (self', \<lparr>bin_file = padding # byte_data, codes_file = cf\<rparr>, stats) \<and>
     encode_image self' [1, 2, 3] = Inr encoded_data \<and>
     unat padding = 8 - length encoded_data mod 8 \<and>
     1 \<le> unat padding \<and> unat padding \<le> 8 \<and>
     length byte_data = length encoded_data div 8 + 1)"
  using padding_byte_range [of "[1, 2, 3]" init "(3, 1)"] by simp

end
